theory Spec2Isabelle
  imports Main
begin

section \<open>Strings and character classes\<close>

text \<open>
  A JavaScript string is modelled as a \<^typ>\<open>string\<close>: one \<^typ>\<open>char\<close> per UTF-16 code
  unit, restricted to the code units below 256. The regular expressions of the program
  carry neither the \<^verbatim>\<open>u\<close> nor the \<^verbatim>\<open>i\<close> flag, so \<^verbatim>\<open>\d\<close>, \<^verbatim>\<open>\w\<close> and
  \<^verbatim>\<open>\b\<close> are the ASCII classes below; \<^verbatim>\<open>\s\<close> and \<^verbatim>\<open>trim\<close> use the white space of
  ECMAScript, of which TAB, LF, VT, FF, CR, SP and NBSP fall into the modelled range.
\<close>

definition isDigit :: "char \<Rightarrow> bool" where
  "isDigit c \<longleftrightarrow> c \<in> set ''0123456789''"

definition isAlpha :: "char \<Rightarrow> bool" where
  "isAlpha c \<longleftrightarrow> c \<in> set ''ABCDEFGHIJKLMNOPQRSTUVWXYZabcdefghijklmnopqrstuvwxyz''"

definition isWordChar :: "char \<Rightarrow> bool" where
  "isWordChar c \<longleftrightarrow> isAlpha c \<or> isDigit c \<or> c = CHR ''_''"

definition isSpace :: "char \<Rightarrow> bool" where
  "isSpace c \<longleftrightarrow> c \<in> set [CHR 0x09, CHR 0x0A, CHR 0x0B, CHR 0x0C, CHR 0x0D, CHR 0x20, CHR 0xA0]"

text \<open>\<^verbatim>\<open>s.substring(a, b)\<close> for \<open>a \<le> b\<close>, and \<^verbatim>\<open>s.substring(a)\<close>.\<close>

definition substring :: "string \<Rightarrow> nat \<Rightarrow> nat \<Rightarrow> string" where
  "substring s a b = take (b - a) (drop a s)"

text \<open>\<^verbatim>\<open>s.trim()\<close>.\<close>

definition trim :: "string \<Rightarrow> string" where
  "trim s = rev (dropWhile isSpace (rev (dropWhile isSpace s)))"

text \<open>
  \<^verbatim>\<open>s.indexOf(w)\<close> and \<^verbatim>\<open>s.lastIndexOf(w)\<close>: the first and the last position at which
  \<open>w\<close> occurs, and \<open>-1\<close> when there is none.
\<close>

definition occursAt :: "string \<Rightarrow> string \<Rightarrow> nat \<Rightarrow> bool" where
  "occursAt w s i \<longleftrightarrow> take (length w) (drop i s) = w"

definition indexOf :: "string \<Rightarrow> string \<Rightarrow> int" where
  "indexOf s w =
     (case List.find (occursAt w s) [0..<Suc (length s)] of
        None \<Rightarrow> -1
      | Some i \<Rightarrow> int i)"

definition lastIndexOf :: "string \<Rightarrow> string \<Rightarrow> int" where
  "lastIndexOf s w =
     (case List.find (occursAt w s) (rev [0..<Suc (length s)]) of
        None \<Rightarrow> -1
      | Some i \<Rightarrow> int i)"

section \<open>Regular expressions with backtracking\<close>

text \<open>
  The regular expressions of the program are written in the abstract syntax below and run
  by a backtracking matcher in the order ECMAScript prescribes: \<open>rmatch r s (i, c)\<close> lists
  every way \<open>r\<close> can match \<open>s\<close> from position \<open>i\<close> with captures \<open>c\<close>, as end position and
  captures, the preferred alternative first. Quantifiers are greedy, and an iteration of
  \<^verbatim>\<open>*\<close> that consumes nothing is rejected, as in ECMAScript. Captures are an association
  list from group number to captured text; a group that did not take part has no entry
  (\<^verbatim>\<open>undefined\<close>).
\<close>

type_synonym caps = "(nat \<times> string) list"
type_synonym mstate = "nat \<times> caps"

datatype regex =
    Lit string
  | Cls "char \<Rightarrow> bool"
  | Seq regex regex
  | Opt regex
  | Star regex
  | Grp nat regex
  | WordB
  | Bos
  | Eos
  | NotAhead regex
  | NotBehind regex

definition wordAt :: "string \<Rightarrow> nat \<Rightarrow> bool" where
  "wordAt s i \<longleftrightarrow> i < length s \<and> isWordChar (s ! i)"

definition isBoundary :: "string \<Rightarrow> nat \<Rightarrow> bool" where
  "isBoundary s i \<longleftrightarrow> ((0 < i \<and> wordAt s (i - 1)) \<noteq> wordAt s i)"

fun rmatch :: "regex \<Rightarrow> string \<Rightarrow> mstate \<Rightarrow> mstate list"
  and rstar :: "nat \<Rightarrow> regex \<Rightarrow> string \<Rightarrow> mstate \<Rightarrow> mstate list" where
  "rmatch (Lit w) s (i, c) = (if occursAt w s i then [(i + length w, c)] else [])"
| "rmatch (Cls P) s (i, c) = (if i < length s \<and> P (s ! i) then [(Suc i, c)] else [])"
| "rmatch (Seq a b) s st = concat (map (rmatch b s) (rmatch a s st))"
| "rmatch (Opt a) s st = rmatch a s st @ [st]"
| "rmatch (Star a) s st = rstar (length s - fst st) a s st"
| "rmatch (Grp n a) s (i, c) =
     map (\<lambda>(e, c'). (e, (n, substring s i e) # c')) (rmatch a s (i, c))"
| "rmatch WordB s (i, c) = (if isBoundary s i then [(i, c)] else [])"
| "rmatch Bos s (i, c) = (if i = 0 then [(i, c)] else [])"
| "rmatch Eos s (i, c) = (if i = length s then [(i, c)] else [])"
| "rmatch (NotAhead a) s st = (if rmatch a s st = [] then [st] else [])"
| "rmatch (NotBehind a) s (i, c) =
     (if list_ex (\<lambda>j. list_ex (\<lambda>st'. fst st' = i) (rmatch a s (j, c))) [0..<Suc i]
      then [] else [(i, c)])"
| "rstar 0 a s st = [st]"
| "rstar (Suc n) a s st =
     concat (map (rstar n a s) (filter (\<lambda>st'. fst st < fst st') (rmatch a s st))) @ [st]"

text \<open>\<^verbatim>\<open>r+\<close> is \<^verbatim>\<open>rr*\<close>, and a pattern is the sequence of its terms.\<close>

definition Plus :: "regex \<Rightarrow> regex" where
  "Plus a = Seq a (Star a)"

fun Seqs :: "regex list \<Rightarrow> regex" where
  "Seqs [] = Lit []"
| "Seqs [r] = r"
| "Seqs (r # rs) = Seq r (Seqs rs)"

text \<open>
  \<^verbatim>\<open>regex.exec(s)\<close> for a regular expression with the \<^verbatim>\<open>g\<close> flag whose \<^verbatim>\<open>lastIndex\<close> is
  \<open>lastIndex\<close>: the leftmost position from \<open>lastIndex\<close> on at which the pattern matches,
  with the end of the preferred match there (the new \<^verbatim>\<open>lastIndex\<close>) and its captures;
  \<open>None\<close> is \<^verbatim>\<open>null\<close>. The same search gives \<^verbatim>\<open>s.match(regex)\<close> for a regular expression
  without the flag, from position 0.
\<close>

definition regexExec :: "regex \<Rightarrow> string \<Rightarrow> nat \<Rightarrow> (nat \<times> nat \<times> caps) option" where
  "regexExec r s lastIndex =
     (case List.find (\<lambda>i. rmatch r s (i, []) \<noteq> []) [lastIndex..<Suc (length s)] of
        None \<Rightarrow> None
      | Some i \<Rightarrow> Some (i, hd (rmatch r s (i, []))))"

definition grp :: "caps \<Rightarrow> nat \<Rightarrow> string option" where
  "grp c n = map_of c n"

section \<open>Book codes (FootnotesParser.expandBookName, isValidBookName)\<close>

text \<open>
  \<^verbatim>\<open>bookMap\<close> is an object literal and \<^verbatim>\<open>bookMap[code]\<close> a property read: a code that
  is no key of the literal is looked up in \<^verbatim>\<open>Object.prototype\<close>, whose properties are
  functions (and, for \<^verbatim>\<open>__proto__\<close>, the prototype object), all of them truthy. The value
  read is therefore a string or such an inherited object.
\<close>

datatype jsval = JString string | JInherited string

definition bookMap :: "(string \<times> string) list" where
  "bookMap =
    [(''Mt'', ''Matthew''), (''Mk'', ''Mark''), (''Lk'', ''Luke''), (''Lu'', ''Luke''),
     (''Jn'', ''John''), (''Ac'', ''Acts''), (''Ro'', ''Romans''),
     (''1Co'', ''1 Corinthians''), (''2Co'', ''2 Corinthians''), (''Ga'', ''Galatians''),
     (''Eph'', ''Ephesians''), (''Php'', ''Philippians''), (''Col'', ''Colossians''),
     (''1Th'', ''1 Thessalonians''), (''2Th'', ''2 Thessalonians''),
     (''1Ti'', ''1 Timothy''), (''2Ti'', ''2 Timothy''), (''Tit'', ''Titus''),
     (''Phm'', ''Philemon''), (''Heb'', ''Hebrews''), (''Jas'', ''James''),
     (''1Pe'', ''1 Peter''), (''2Pe'', ''2 Peter''), (''1Jn'', ''1 John''),
     (''2Jn'', ''2 John''), (''3Jn'', ''3 John''), (''Jud'', ''Jude''),
     (''Re'', ''Revelation''), (''Ge'', ''Genesis''), (''Ex'', ''Exodus''),
     (''Le'', ''Leviticus''), (''Nu'', ''Numbers''), (''De'', ''Deuteronomy''),
     (''Jos'', ''Joshua''), (''Jdg'', ''Judges''), (''Ru'', ''Ruth''),
     (''1Sa'', ''1 Samuel''), (''2Sa'', ''2 Samuel''), (''1Ki'', ''1 Kings''),
     (''2Ki'', ''2 Kings''), (''1Ch'', ''1 Chronicles''), (''2Ch'', ''2 Chronicles''),
     (''Ezr'', ''Ezra''), (''Ne'', ''Nehemiah''), (''Es'', ''Esther''), (''Job'', ''Job''),
     (''Ps'', ''Psalms''), (''Pr'', ''Proverbs''), (''Ec'', ''Ecclesiastes''),
     (''So'', ''Song of Solomon''), (''Is'', ''Isaiah''), (''Jer'', ''Jeremiah''),
     (''La'', ''Lamentations''), (''Eze'', ''Ezekiel''), (''Da'', ''Daniel''),
     (''Ho'', ''Hosea''), (''Joe'', ''Joel''), (''Am'', ''Amos''), (''Ob'', ''Obadiah''),
     (''Jon'', ''Jonah''), (''Mic'', ''Micah''), (''Na'', ''Nahum''), (''Hab'', ''Habakkuk''),
     (''Zep'', ''Zephaniah''), (''Hag'', ''Haggai''), (''Zec'', ''Zechariah''),
     (''Mal'', ''Malachi'')]"

definition objectPrototypeProps :: "string list" where
  "objectPrototypeProps =
    [''constructor'', ''hasOwnProperty'', ''isPrototypeOf'', ''propertyIsEnumerable'',
     ''toLocaleString'', ''toString'', ''valueOf'', ''__defineGetter__'',
     ''__defineSetter__'', ''__lookupGetter__'', ''__lookupSetter__'', ''__proto__'']"

text \<open>\<^verbatim>\<open>obj[key]\<close> on an object literal; \<open>None\<close> is \<^verbatim>\<open>undefined\<close>.\<close>

definition getProp :: "(string \<times> string) list \<Rightarrow> string \<Rightarrow> jsval option" where
  "getProp obj k =
     (case map_of obj k of
        Some v \<Rightarrow> Some (JString v)
      | None \<Rightarrow> if k \<in> set objectPrototypeProps then Some (JInherited k) else None)"

fun truthy :: "jsval \<Rightarrow> bool" where
  "truthy (JString v) = (v \<noteq> [])"
| "truthy (JInherited k) = True"

text \<open>\<^verbatim>\<open>return bookMap[code] || code\<close>.\<close>

definition expandBookName :: "string \<Rightarrow> jsval" where
  "expandBookName code =
     (case getProp bookMap code of
        Some v \<Rightarrow> if truthy v then v else JString code
      | None \<Rightarrow> JString code)"

definition validBooks :: "string list" where
  "validBooks =
    [''Genesis'', ''Exodus'', ''Leviticus'', ''Numbers'', ''Deuteronomy'',
     ''Joshua'', ''Judges'', ''Ruth'', ''1 Samuel'', ''2 Samuel'',
     ''1 Kings'', ''2 Kings'', ''1 Chronicles'', ''2 Chronicles'',
     ''Ezra'', ''Nehemiah'', ''Esther'', ''Job'', ''Psalms'',
     ''Proverbs'', ''Ecclesiastes'', ''Song of Solomon'',
     ''Isaiah'', ''Jeremiah'', ''Lamentations'', ''Ezekiel'', ''Daniel'',
     ''Hosea'', ''Joel'', ''Amos'', ''Obadiah'', ''Jonah'', ''Micah'',
     ''Nahum'', ''Habakkuk'', ''Zephaniah'', ''Haggai'', ''Zechariah'', ''Malachi'',
     ''Matthew'', ''Mark'', ''Luke'', ''John'', ''Acts'',
     ''Romans'', ''1 Corinthians'', ''2 Corinthians'', ''Galatians'',
     ''Ephesians'', ''Philippians'', ''Colossians'',
     ''1 Thessalonians'', ''2 Thessalonians'', ''1 Timothy'', ''2 Timothy'',
     ''Titus'', ''Philemon'', ''Hebrews'', ''James'',
     ''1 Peter'', ''2 Peter'', ''1 John'', ''2 John'', ''3 John'',
     ''Jude'', ''Revelation'']"

text \<open>\<^verbatim>\<open>validBooks.includes(name)\<close>: an inherited object equals no string.\<close>

fun isValidBookName :: "jsval \<Rightarrow> bool" where
  "isValidBookName (JString name) = (name \<in> set validBooks)"
| "isValidBookName (JInherited k) = False"

section \<open>Global replacement and the exec loop\<close>

lemma rmatch_rstar_mono:
  "(\<forall>st' \<in> set (rmatch r s st). fst st \<le> fst st')"
  "(\<forall>st' \<in> set (rstar n r s st). fst st \<le> fst st')"
proof (induction r s st and n r s st rule: rmatch_rstar.induct)
  case (3 a b s st)
  then show ?case by fastforce
next
  case (11 a s i c)
  then show ?case by (simp split: if_splits)
next
  case (13 n a s st)
  then show ?case by fastforce
qed (auto split: if_splits)

lemma find_Some_member: "List.find P xs = Some x \<Longrightarrow> P x \<and> x \<in> set xs"
  by (induction xs) (auto split: if_splits)

lemma regexExec_SomeD:
  assumes "regexExec r s k = Some (i, e, c)"
  shows "k \<le> i \<and> i \<le> length s \<and> i \<le> e \<and> (e, c) \<in> set (rmatch r s (i, []))"
proof -
  from assms obtain j where f: "List.find (\<lambda>i. rmatch r s (i, []) \<noteq> []) [k..<Suc (length s)] = Some j"
    and ec: "(i, e, c) = (j, hd (rmatch r s (j, [])))"
    by (auto simp: regexExec_def split: option.splits)
  from f have "j \<in> set [k..<Suc (length s)]" "rmatch r s (j, []) \<noteq> []"
    by (auto dest: find_Some_member)
  moreover from this ec have "(e, c) \<in> set (rmatch r s (i, []))" by auto
  moreover from this rmatch_rstar_mono(1) [of r s "(i, [])"] have "i \<le> e" by auto
  ultimately show ?thesis using ec by auto
qed

text \<open>
  \<^verbatim>\<open>s.replace(regex, callback)\<close> for a regular expression with the \<^verbatim>\<open>g\<close> flag: the
  matches are found from left to right on \<open>s\<close> itself, the search resuming at the end of
  the last match (one position further after an empty match), and each is replaced by what
  the callback returns for it. \<open>np\<close> is the position up to which \<open>s\<close> has been copied and
  \<open>k\<close> the position at which the search resumes.
\<close>

function replaceFrom :: "regex \<Rightarrow> (nat \<times> nat \<times> caps \<Rightarrow> string) \<Rightarrow> string \<Rightarrow> nat \<Rightarrow> nat \<Rightarrow> string" where
  "replaceFrom r f s np k =
     (case regexExec r s k of
        None \<Rightarrow> drop np s
      | Some (i, e, c) \<Rightarrow>
          substring s np i @ f (i, e, c) @ replaceFrom r f s e (if e = i then Suc i else e))"
  by pat_completeness auto
termination
  by (relation "measure (\<lambda>(r, f, s, np, k). Suc (length s) - k)")
    (auto dest!: regexExec_SomeD)

definition jsReplace :: "regex \<Rightarrow> (nat \<times> nat \<times> caps \<Rightarrow> string) \<Rightarrow> string \<Rightarrow> string" where
  "jsReplace r f s = replaceFrom r f s 0 0"

text \<open>
  \<^verbatim>\<open>while ((match = regex.exec(s)) !== null) { body }\<close> for a body that leaves
  \<^verbatim>\<open>lastIndex\<close> alone. \<^verbatim>\<open>exec\<close> does not step over an empty match, so the loop need not
  end: \<open>None\<close> is the loop that runs forever.
\<close>

partial_function (option) execLoop ::
  "regex \<Rightarrow> string \<Rightarrow> (nat \<times> nat \<times> caps \<Rightarrow> 'a \<Rightarrow> 'a) \<Rightarrow> nat \<Rightarrow> 'a \<Rightarrow> 'a option" where
  "execLoop r s body lastIndex acc =
     (case regexExec r s lastIndex of
        None \<Rightarrow> Some acc
      | Some m \<Rightarrow> execLoop r s body (fst (snd m)) (body m acc))"

declare execLoop.simps [code]

text \<open>\<^verbatim>\<open>s.match(regex)\<close> with the \<^verbatim>\<open>g\<close> flag: the matched texts (\<^verbatim>\<open>null\<close> is the empty list).\<close>

function matchAllFrom :: "regex \<Rightarrow> string \<Rightarrow> nat \<Rightarrow> string list" where
  "matchAllFrom r s k =
     (case regexExec r s k of
        None \<Rightarrow> []
      | Some (i, e, c) \<Rightarrow> substring s i e # matchAllFrom r s (if e = i then Suc i else e))"
  by pat_completeness auto
termination
  by (relation "measure (\<lambda>(r, s, k). Suc (length s) - k)")
    (auto dest!: regexExec_SomeD)

declare replaceFrom.simps [simp del] matchAllFrom.simps [simp del]

section \<open>Numbers\<close>

text \<open>
  A JavaScript number that holds an integer or \<^verbatim>\<open>NaN\<close>. The model covers the integers
  that a double holds exactly, those below \<open>2\<^sup>5\<^sup>3\<close> in magnitude, which print in
  plain decimal notation. \<open>numToString\<close> is the conversion of a template literal. A
  longer run of digits, which the program rounds to the nearest double (or to
  \<^verbatim>\<open>Infinity\<close>) and prints with the shortest digits that give the double back, is
  outside the model: \<open>parseInt\<close> and \<open>numToString\<close> keep the exact integer there. The
  tests on a number (\<^verbatim>\<open>isNaN\<close>, truthiness) are the same for both.
\<close>

datatype jsnum = JNaN | JNum int

definition digitChar :: "nat \<Rightarrow> char" where
  "digitChar d = ''0123456789'' ! d"

fun showNat :: "nat \<Rightarrow> string" where
  "showNat n = (if n < 10 then [digitChar n] else showNat (n div 10) @ [digitChar (n mod 10)])"

declare showNat.simps [simp del]

fun numToString :: "jsnum \<Rightarrow> string" where
  "numToString JNaN = ''NaN''"
| "numToString (JNum i) = (if i < 0 then ''-'' @ showNat (nat (- i)) else showNat (nat i))"

definition digitValue :: "char \<Rightarrow> nat" where
  "digitValue c =
     (case List.find (\<lambda>(d, v). d = c)
        (zip ''0123456789abcdefABCDEF'' [0, 1, 2, 3, 4, 5, 6, 7, 8, 9, 10, 11, 12, 13, 14, 15, 10, 11, 12, 13, 14, 15]) of
        None \<Rightarrow> 0
      | Some (d, v) \<Rightarrow> v)"

definition isHexDigit :: "char \<Rightarrow> bool" where
  "isHexDigit c \<longleftrightarrow> c \<in> set ''0123456789abcdefABCDEF''"

text \<open>
  \<^verbatim>\<open>parseInt(str)\<close> with no radix: leading white space, a sign, the prefix \<^verbatim>\<open>0x\<close> of a
  hexadecimal numeral, then the longest run of digits; \<^verbatim>\<open>NaN\<close> when that run is empty.
\<close>

definition parseInt :: "string \<Rightarrow> jsnum" where
  "parseInt str =
     (let s = dropWhile isSpace str;
          neg = (take 1 s = ''-'');
          s1 = (if take 1 s = ''+'' \<or> take 1 s = ''-'' then drop 1 s else s);
          hex = (take 2 s1 = ''0x'' \<or> take 2 s1 = ''0X'');
          s2 = (if hex then drop 2 s1 else s1);
          radix = (if hex then 16 else 10);
          z = takeWhile (if hex then isHexDigit else isDigit) s2;
          v = foldl (\<lambda>a d. a * radix + digitValue d) 0 z
      in if z = [] then JNaN else JNum (if neg then - int v else int v))"

fun isNaN :: "jsnum \<Rightarrow> bool" where
  "isNaN JNaN = True"
| "isNaN (JNum i) = False"

section \<open>Records of the parser\<close>

record VerseReference =
  book :: jsval
  "chapter" :: jsnum
  verse :: "jsnum option"
  endVerse :: "jsnum option"
  display :: string

record ParsedFootnote =
  id_f :: string
  number :: jsnum
  type_f :: string
  content :: string
  verseReferences :: "VerseReference list"

section \<open>The document tree (cheerio)\<close>

text \<open>
  \<^verbatim>\<open>cheerio.load(html)\<close> is the HTML parser of a library; the model starts from the tree
  it returns. A node is a text node, a comment or an element with its name, its attributes
  and its children. The operations below are the cheerio calls of the parser:
  \<^verbatim>\<open>$(sel)\<close> and \<^verbatim>\<open>.find(sel)\<close> for a class or an element name, \<^verbatim>\<open>.text()\<close>,
  \<^verbatim>\<open>.attr(name)\<close>, \<^verbatim>\<open>.remove()\<close> and \<^verbatim>\<open>.html()\<close>.
\<close>

datatype node =
    TextNode string
  | Comment string
  | Element string "(string \<times> string) list" "node list"

fun textContent :: "node \<Rightarrow> string" where
  "textContent (TextNode d) = d"
| "textContent (Comment d) = []"
| "textContent (Element n as ch) = concat (map textContent ch)"

fun descendants :: "node \<Rightarrow> node list" where
  "descendants (Element n as ch) = concat (map (\<lambda>x. x # descendants x) ch)"
| "descendants (TextNode d) = []"
| "descendants (Comment d) = []"

text \<open>\<^verbatim>\<open>$(sel)\<close> on the document and \<^verbatim>\<open>$el.find(sel)\<close>, in document order.\<close>

definition selectAll :: "(node \<Rightarrow> bool) \<Rightarrow> node list \<Rightarrow> node list" where
  "selectAll P roots = filter P (concat (map (\<lambda>x. x # descendants x) roots))"

definition findIn :: "(node \<Rightarrow> bool) \<Rightarrow> node \<Rightarrow> node list" where
  "findIn P el = filter P (descendants el)"

function splitWs :: "string \<Rightarrow> string list" where
  "splitWs [] = []"
| "splitWs (c # cs) =
     (if isSpace c then splitWs cs
      else (c # takeWhile (\<lambda>x. \<not> isSpace x) cs) # splitWs (dropWhile (\<lambda>x. \<not> isSpace x) cs))"
  by pat_completeness auto
termination
  by (relation "measure length") (auto simp: less_Suc_eq_le length_dropWhile_le)

fun hasClass :: "string \<Rightarrow> node \<Rightarrow> bool" where
  "hasClass cls (Element n as ch) =
     (case map_of as ''class'' of None \<Rightarrow> False | Some v \<Rightarrow> cls \<in> set (splitWs v))"
| "hasClass cls (TextNode d) = False"
| "hasClass cls (Comment d) = False"

fun hasName :: "string \<Rightarrow> node \<Rightarrow> bool" where
  "hasName nm (Element n as ch) = (n = nm)"
| "hasName nm (TextNode d) = False"
| "hasName nm (Comment d) = False"

text \<open>\<^verbatim>\<open>$els.text()\<close> and \<^verbatim>\<open>$els.attr(name)\<close> (of the first element; \<open>None\<close> is \<^verbatim>\<open>undefined\<close>).\<close>

definition textOf :: "node list \<Rightarrow> string" where
  "textOf els = concat (map textContent els)"

fun attrOf :: "node list \<Rightarrow> string \<Rightarrow> string option" where
  "attrOf (Element n as ch # els) name = map_of as name"
| "attrOf els name = None"

text \<open>\<^verbatim>\<open>$el.find(sel).remove()\<close> on a clone of \<open>el\<close>.\<close>

fun removeAll :: "(node \<Rightarrow> bool) \<Rightarrow> node \<Rightarrow> node" where
  "removeAll P (Element n as ch) = Element n as (map (removeAll P) (filter (\<lambda>x. \<not> P x) ch))"
| "removeAll P (TextNode d) = TextNode d"
| "removeAll P (Comment d) = Comment d"

text \<open>
  \<^verbatim>\<open>$el.html()\<close>: the children of the element as markup. Text and attribute values are
  escaped; a void element has no end tag; the text of a raw-text element is not escaped.
\<close>

definition dquote :: char where
  "dquote = CHR 0x22"

definition escapeText :: "string \<Rightarrow> string" where
  "escapeText d = concat (map (\<lambda>c.
     if c = CHR ''&'' then ''&amp;'' else if c = CHR 0xA0 then ''&nbsp;''
     else if c = CHR ''<'' then ''&lt;'' else if c = CHR ''>'' then ''&gt;'' else [c]) d)"

definition escapeAttr :: "string \<Rightarrow> string" where
  "escapeAttr v = concat (map (\<lambda>c.
     if c = CHR ''&'' then ''&amp;'' else if c = CHR 0xA0 then ''&nbsp;''
     else if c = dquote then ''&quot;'' else [c]) v)"

definition voidElements :: "string list" where
  "voidElements = [''area'', ''base'', ''basefont'', ''bgsound'', ''br'', ''col'', ''embed'',
     ''frame'', ''hr'', ''img'', ''input'', ''keygen'', ''link'', ''meta'', ''param'',
     ''source'', ''track'', ''wbr'']"

definition rawTextElements :: "string list" where
  "rawTextElements = [''style'', ''script'', ''xmp'', ''iframe'', ''noembed'', ''noframes'',
     ''plaintext'', ''noscript'']"

fun serialize :: "string \<Rightarrow> node \<Rightarrow> string" where
  "serialize parent (TextNode d) = (if parent \<in> set rawTextElements then d else escapeText d)"
| "serialize parent (Comment d) = ''<!--'' @ d @ ''-->''"
| "serialize parent (Element n as ch) =
     ''<'' @ n @ concat (map (\<lambda>(k, v). '' '' @ k @ ''='' @ [dquote] @ escapeAttr v @ [dquote]) as) @ ''>'' @
     (if n \<in> set voidElements then [] else concat (map (serialize n) ch) @ ''</'' @ n @ ''>'')"

fun innerHTML :: "node \<Rightarrow> string" where
  "innerHTML (Element n as ch) = concat (map (serialize n) ch)"
| "innerHTML (TextNode d) = []"
| "innerHTML (Comment d) = []"

section \<open>FootnotesParser\<close>

definition grpText :: "caps \<Rightarrow> nat \<Rightarrow> string" where
  "grpText c n = (case grp c n of None \<Rightarrow> [] | Some t \<Rightarrow> t)"

text \<open>\<^verbatim>\<open>/^Bible:(\w+)\s+(\d+):(\d+)(?:-(\d+))?$/\<close>\<close>

definition parseDataRefRe :: regex where
  "parseDataRefRe = Seqs [Bos, Lit ''Bible:'', Grp 1 (Plus (Cls isWordChar)), Plus (Cls isSpace),
     Grp 2 (Plus (Cls isDigit)), Lit '':'', Grp 3 (Plus (Cls isDigit)),
     Opt (Seq (Lit ''-'') (Grp 4 (Plus (Cls isDigit)))), Eos]"

definition parseDataRef :: "string \<Rightarrow> string \<Rightarrow> VerseReference option" where
  "parseDataRef ref display' =
     (case regexExec parseDataRefRe ref 0 of
        None \<Rightarrow> None
      | Some (i, e, c) \<Rightarrow>
          Some \<lparr> book = expandBookName (grpText c 1),
                 chapter = parseInt (grpText c 2),
                 verse = Some (parseInt (grpText c 3)),
                 endVerse = (case grp c 4 of None \<Rightarrow> None
                             | Some ev \<Rightarrow> if ev \<noteq> [] then Some (parseInt ev) else None),
                 display = display' \<rparr>)"

text \<open>
  The two patterns of \<^verbatim>\<open>findBibleReferences\<close>:
  \<^verbatim>\<open>/\b(\d?\s*\w+)\s+(\d+):(\d+)(?:-(\d+))?\b/g\<close> and
  \<^verbatim>\<open>/\b(\w+)\s+(\d+):(\d+)(?:-(\d+))?\b/g\<close>.
\<close>

definition citationTail :: "regex list" where
  "citationTail = [Plus (Cls isSpace), Grp 2 (Plus (Cls isDigit)), Lit '':'',
     Grp 3 (Plus (Cls isDigit)), Opt (Seq (Lit ''-'') (Grp 4 (Plus (Cls isDigit)))), WordB]"

definition pattern1 :: regex where
  "pattern1 = Seqs ([WordB,
     Grp 1 (Seqs [Opt (Cls isDigit), Star (Cls isSpace), Plus (Cls isWordChar)])] @ citationTail)"

definition pattern2 :: regex where
  "pattern2 = Seqs ([WordB, Grp 1 (Plus (Cls isWordChar))] @ citationTail)"

text \<open>The body of the \<^verbatim>\<open>while\<close> loop of \<^verbatim>\<open>findBibleReferences\<close>.\<close>

definition pushReference :: "string \<Rightarrow> nat \<times> nat \<times> caps \<Rightarrow> VerseReference list \<Rightarrow> VerseReference list" where
  "pushReference text m references =
     (case m of (i, e, c) \<Rightarrow>
        let book' = expandBookName (trim (grpText c 1)) in
        if isValidBookName book'
        then references @
          [\<lparr> book = book',
              chapter = parseInt (grpText c 2),
              verse = Some (parseInt (grpText c 3)),
              endVerse = (case grp c 4 of None \<Rightarrow> None
                          | Some ev \<Rightarrow> if ev \<noteq> [] then Some (parseInt ev) else None),
              display = substring text i e \<rparr>]
        else references)"

definition findBibleReferences :: "string \<Rightarrow> VerseReference list option" where
  "findBibleReferences text =
     (case execLoop pattern1 text (pushReference text) 0 [] of
        None \<Rightarrow> None
      | Some references \<Rightarrow> execLoop pattern2 text (pushReference text) 0 references)"

text \<open>
  \<^verbatim>\<open>/<data ref="Bible:([^"]+)">([^<]+)<\/data>/g\<close>, and the same between \<^verbatim>\<open>^\<close> and
  \<^verbatim>\<open>$\<close>.
\<close>

definition dataTag :: "regex list" where
  "dataTag = [Lit (''<data ref='' @ [dquote] @ ''Bible:''), Grp 1 (Plus (Cls (\<lambda>c. c \<noteq> dquote))),
     Lit ([dquote] @ ''>''), Grp 2 (Plus (Cls (\<lambda>c. c \<noteq> CHR ''<''))), Lit ''</data>'']"

definition dataRefRe :: regex where
  "dataRefRe = Seqs dataTag"

definition dataRefAnchoredRe :: regex where
  "dataRefAnchoredRe = Seqs ([Bos] @ dataTag @ [Eos])"

text \<open>The explicit tags of a note: the \<^verbatim>\<open>forEach\<close> over \<^verbatim>\<open>dataRefMatches\<close>.\<close>

definition dataRefReferences :: "string \<Rightarrow> VerseReference list" where
  "dataRefReferences html =
     foldl (\<lambda>references match.
        case regexExec dataRefAnchoredRe match 0 of
          None \<Rightarrow> references
        | Some (i, e, c) \<Rightarrow>
            (case parseDataRef (''Bible:'' @ grpText c 1) (grpText c 2) of
               None \<Rightarrow> references
             | Some parsed \<Rightarrow> references @ [parsed]))
       [] (matchAllFrom dataRefRe html 0)"

definition extractVerseReferences :: "node \<Rightarrow> VerseReference list option" where
  "extractVerseReferences note =
     (let references = dataRefReferences (innerHTML note) in
      if length references = 0
      then (case findBibleReferences (textContent note) of
              None \<Rightarrow> None
            | Some additionalRefs \<Rightarrow> Some (references @ additionalRefs))
      else Some references)"

text \<open>
  The callback of \<^verbatim>\<open>$('.note').each\<close>; \<open>number'\<close> is \<open>None\<close> for \<^verbatim>\<open>null\<close>.
\<close>

definition noteNumber :: "node \<Rightarrow> jsnum option" where
  "noteNumber note =
     (let numberText = trim (textOf (findIn (hasClass ''noteNoteSuper'') note))
      in if numberText \<noteq> [] then Some (parseInt numberText) else None)"

definition noteContent :: "node \<Rightarrow> string" where
  "noteContent note =
     (let contentClone = removeAll (hasClass ''notetype'') (removeAll (hasName ''sup'') note);
          content' = trim (textContent contentClone)
      in trim (jsReplace (Plus (Cls isSpace)) (\<lambda>m. '' '') content'))"

definition noteId :: "node \<Rightarrow> string" where
  "noteId note =
     (let numberEl = findIn (hasClass ''noteNoteSuper'') note;
          fallback = ''note_'' @ (case noteNumber note of
                         None \<Rightarrow> ''unknown''
                       | Some JNaN \<Rightarrow> ''unknown''
                       | Some (JNum n) \<Rightarrow> if n = 0 then ''unknown'' else numToString (JNum n))
      in case attrOf numberEl ''id'' of
           None \<Rightarrow> fallback
         | Some v \<Rightarrow> if v \<noteq> [] then v else fallback)"

definition eachNote :: "node \<Rightarrow> ParsedFootnote list \<Rightarrow> ParsedFootnote list option" where
  "eachNote note footnotes =
     (let number' = noteNumber note;
          type' = trim (textOf (findIn (hasClass ''notetype'') note))
      in case extractVerseReferences note of
           None \<Rightarrow> None
         | Some refs \<Rightarrow>
             (case number' of
                None \<Rightarrow> Some footnotes
              | Some n \<Rightarrow>
                  if noteContent note \<noteq> [] \<and> \<not> isNaN n
                  then Some (footnotes @
                    [\<lparr> id_f = noteId note, number = n, type_f = type',
                        content = noteContent note, verseReferences = refs \<rparr>])
                  else Some footnotes))"

fun eachNotes :: "node list \<Rightarrow> ParsedFootnote list \<Rightarrow> ParsedFootnote list option" where
  "eachNotes [] footnotes = Some footnotes"
| "eachNotes (note # notes) footnotes =
     (case eachNote note footnotes of
        None \<Rightarrow> None
      | Some footnotes' \<Rightarrow> eachNotes notes footnotes')"

text \<open>The note blocks of a document, and \<^verbatim>\<open>parseFootnotes\<close> on the loaded document.\<close>

definition noteBlocks :: "node list \<Rightarrow> node list" where
  "noteBlocks doc = selectAll (hasClass ''note'') doc"

definition parseFootnotes :: "node list \<Rightarrow> ParsedFootnote list option" where
  "parseFootnotes doc = eachNotes (noteBlocks doc) []"

section \<open>MarkdownGenerator\<close>

text \<open>
  A value in a template literal: a string is itself; an object inherited from
  \<^verbatim>\<open>Object.prototype\<close> prints as the source text of a native function, or as
  \<^verbatim>\<open>[object Object]\<close> for the prototype object.
\<close>

fun jsToString :: "jsval \<Rightarrow> string" where
  "jsToString (JString v) = v"
| "jsToString (JInherited k) =
     (if k = ''__proto__'' then ''[object Object]''
      else ''function '' @ (if k = ''constructor'' then ''Object'' else k) @ ''() { [native code] }'')"

text \<open>\<^verbatim>\<open>expandBookCode\<close> holds the same table as \<^verbatim>\<open>expandBookName\<close>.\<close>

definition expandBookCode :: "string \<Rightarrow> jsval" where
  "expandBookCode code =
     (case getProp bookMap code of
        Some v \<Rightarrow> if truthy v then v else JString code
      | None \<Rightarrow> JString code)"

text \<open>A number in a condition: \<^verbatim>\<open>undefined\<close>, \<^verbatim>\<open>NaN\<close> and \<open>0\<close> are falsy.\<close>

fun truthyNum :: "jsnum option \<Rightarrow> bool" where
  "truthyNum None = False"
| "truthyNum (Some JNaN) = False"
| "truthyNum (Some (JNum i)) = (i \<noteq> 0)"

fun optNumToString :: "jsnum option \<Rightarrow> string" where
  "optNumToString None = ''undefined''"
| "optNumToString (Some n) = numToString n"

definition generateVerseLink :: "VerseReference \<Rightarrow> string" where
  "generateVerseLink ref =
     (if truthyNum (verse ref) \<and> truthyNum (endVerse ref)
      then ''[['' @ jsToString (book ref) @ '' '' @ numToString (chapter ref) @ ''#'' @
           optNumToString (verse ref) @ ''|'' @ display ref @ '']]''
      else if truthyNum (verse ref)
      then ''[['' @ jsToString (book ref) @ '' '' @ numToString (chapter ref) @ ''#'' @
           optNumToString (verse ref) @ ''|'' @ display ref @ '']]''
      else ''[['' @ jsToString (book ref) @ '' '' @ numToString (chapter ref) @ ''|'' @
           display ref @ '']]'')"

text \<open>
  Step 1 of \<^verbatim>\<open>processFootnoteContent\<close>: the callback for a \<^verbatim>\<open>data\<close> element, with
  \<^verbatim>\<open>/^(\w+)\s+(\d+):(\d+)(?:-(\d+))?$/\<close> for its reference.
\<close>

definition refRe :: regex where
  "refRe = Seqs [Bos, Grp 1 (Plus (Cls isWordChar)), Plus (Cls isSpace),
     Grp 2 (Plus (Cls isDigit)), Lit '':'', Grp 3 (Plus (Cls isDigit)),
     Opt (Seq (Lit ''-'') (Grp 4 (Plus (Cls isDigit)))), Eos]"

definition dataRefCallback :: "nat \<times> nat \<times> caps \<Rightarrow> string" where
  "dataRefCallback m =
     (case m of (i, e, c) \<Rightarrow>
        let ref = grpText c 1; display' = grpText c 2 in
        case regexExec refRe ref 0 of
          Some (ri, re, rc) \<Rightarrow>
            ''[['' @ jsToString (expandBookCode (grpText rc 1)) @ '' '' @ grpText rc 2 @ ''#'' @
            grpText rc 3 @ ''|'' @ display' @ '']]''
        | None \<Rightarrow> display')"

text \<open>Step 2: \<^verbatim>\<open>/<[^>]+>/g\<close>.\<close>

definition tagRe :: regex where
  "tagRe = Seqs [Lit ''<'', Plus (Cls (\<lambda>c. c \<noteq> CHR ''>'')), Lit ''>'']"

text \<open>
  Step 3. The link of a reference, the pattern built from its display text (every syntax
  character of the text is escaped, so the pattern is the text itself between two
  \<^verbatim>\<open>\b\<close>), the test of a candidate against \<^verbatim>\<open>linkedRanges\<close>, and the \<^verbatim>\<open>while\<close>
  loop, which sets \<^verbatim>\<open>lastIndex\<close> itself after a replacement.
\<close>

type_synonym range = "nat \<times> nat"

definition wikiLink :: "VerseReference \<Rightarrow> string" where
  "wikiLink ref = ''[['' @ jsToString (book ref) @ '' '' @ numToString (chapter ref) @ ''#'' @
     optNumToString (verse ref) @ ''|'' @ display ref @ '']]''"

definition displayRe :: "string \<Rightarrow> regex" where
  "displayRe d = Seqs [WordB, Lit d, WordB]"

definition isAlreadyLinked :: "range list \<Rightarrow> nat \<Rightarrow> nat \<Rightarrow> bool" where
  "isAlreadyLinked linkedRanges matchStart matchEnd =
     list_ex (\<lambda>(start, end).
        (matchStart \<ge> start \<and> matchStart < end) \<or> (matchEnd > start \<and> matchEnd \<le> end))
       linkedRanges"

text \<open>
  The replacement of one candidate: the new text, and the registry after the new range
  has been pushed and every range that starts at or after \<open>matchEnd\<close> has been shifted.
\<close>

definition replaceCandidate ::
  "string \<Rightarrow> string \<times> range list \<Rightarrow> nat \<Rightarrow> nat \<Rightarrow> string \<times> range list" where
  "replaceCandidate link st matchStart matchEnd =
     (case st of (processed, linkedRanges) \<Rightarrow>
        (substring processed 0 matchStart @ link @ drop matchEnd processed,
         map (\<lambda>(start, end).
                if start \<ge> matchEnd
                then (start + (length link - (matchEnd - matchStart)),
                      end + (length link - (matchEnd - matchStart)))
                else (start, end))
           (linkedRanges @ [(matchStart, matchStart + length link)])))"

partial_function (option) linkLoop ::
  "VerseReference \<Rightarrow> string \<times> range list \<Rightarrow> nat \<Rightarrow> (string \<times> range list) option" where
  "linkLoop ref st lastIndex =
     (case regexExec (displayRe (display ref)) (fst st) lastIndex of
        None \<Rightarrow> Some st
      | Some (matchStart, matchEnd, c) \<Rightarrow>
          if isAlreadyLinked (snd st) matchStart matchEnd
          then linkLoop ref st matchEnd
          else linkLoop ref (replaceCandidate (wikiLink ref) st matchStart matchEnd)
                 (matchStart + length (wikiLink ref)))"

declare linkLoop.simps [code]

text \<open>\<^verbatim>\<open>sortedRefs.forEach\<close>, and the stable sort by display length, longest first.\<close>

fun linkReferences :: "VerseReference list \<Rightarrow> string \<times> range list \<Rightarrow> (string \<times> range list) option" where
  "linkReferences [] st = Some st"
| "linkReferences (ref # refs) st =
     (case linkLoop ref st 0 of
        None \<Rightarrow> None
      | Some st' \<Rightarrow> linkReferences refs st')"

definition sortedRefs :: "VerseReference list \<Rightarrow> VerseReference list" where
  "sortedRefs refs = sort_key (\<lambda>r. - int (length (display r))) refs"

text \<open>\<^verbatim>\<open>extractBookFromFootnote\<close>, with \<^verbatim>\<open>/note_([A-Za-z]+)_\d+_\d+/\<close>.\<close>

definition bookIdRe :: regex where
  "bookIdRe = Seqs [Lit ''note_'', Grp 1 (Plus (Cls isAlpha)), Lit ''_'', Plus (Cls isDigit),
     Lit ''_'', Plus (Cls isDigit)]"

definition extractBookFromFootnote :: "ParsedFootnote option \<Rightarrow> string option" where
  "extractBookFromFootnote footnote =
     (case footnote of
        None \<Rightarrow> None
      | Some fn \<Rightarrow>
          if id_f fn \<noteq> []
          then (case regexExec bookIdRe (id_f fn) 0 of
                  None \<Rightarrow> None
                | Some (i, e, c) \<Rightarrow> Some (grpText c 1))
          else None)"

text \<open>
  Step 4, the same-chapter pass:
  \<^verbatim>\<open>/(?<!\[\[)(?<![#:])\b(\d+):(\d+)(?:-(\d+))?\b(?![^\[]*\]\])/g\<close> and its callback, which
  looks at the text around the first occurrence of the matched text in \<open>processed\<close>.
\<close>

definition shorthandRe :: regex where
  "shorthandRe = Seqs [NotBehind (Lit ''[[''), NotBehind (Cls (\<lambda>c. c \<in> set ''#:'')), WordB,
     Grp 1 (Plus (Cls isDigit)), Lit '':'', Grp 2 (Plus (Cls isDigit)),
     Opt (Seq (Lit ''-'') (Grp 3 (Plus (Cls isDigit)))), WordB,
     NotAhead (Seqs [Star (Cls (\<lambda>c. c \<noteq> CHR ''['')), Lit '']]''])]"

definition shorthandCallback :: "string \<Rightarrow> string \<Rightarrow> nat \<times> nat \<times> caps \<Rightarrow> string" where
  "shorthandCallback processed currentBook m =
     (case m of (i, e, c) \<Rightarrow>
        let match = substring processed i e;
            chapter' = grpText c 1; verse' = grpText c 2;
            at = nat (indexOf processed match);
            beforeMatch = substring processed 0 at;
            afterMatch = drop (at + length match) processed
        in if lastIndexOf beforeMatch ''[['' > lastIndexOf beforeMatch '']]'' \<or>
              indexOf afterMatch '']]'' < indexOf afterMatch ''[[''
           then match
           else if grpText c 3 \<noteq> []
           then ''[['' @ currentBook @ '' '' @ chapter' @ ''#'' @ verse' @ ''|'' @
                chapter' @ '':'' @ verse' @ ''-'' @ grpText c 3 @ '']]''
           else ''[['' @ currentBook @ '' '' @ chapter' @ ''#'' @ verse' @ ''|'' @
                chapter' @ '':'' @ verse' @ '']]'')"

definition shorthandPass :: "string option \<Rightarrow> string \<Rightarrow> string" where
  "shorthandPass currentBook processed =
     (case currentBook of
        None \<Rightarrow> processed
      | Some b \<Rightarrow>
          if b \<noteq> [] then jsReplace shorthandRe (shorthandCallback processed b) processed
          else processed)"

text \<open>
  \<^verbatim>\<open>processFootnoteContent\<close>: \<open>linkedContent\<close> is the text after steps 1 to 3, on which
  the same-chapter pass then runs.
\<close>

definition linkedContent :: "string \<Rightarrow> ParsedFootnote option \<Rightarrow> string option" where
  "linkedContent content' footnote =
     (let processed1 = jsReplace dataRefRe dataRefCallback content';
          processed2 = jsReplace tagRe (\<lambda>m. []) processed1;
          refs = (case footnote of None \<Rightarrow> [] | Some fn \<Rightarrow> verseReferences fn)
      in case linkReferences (sortedRefs refs) (processed2, []) of
           None \<Rightarrow> None
         | Some (processed3, linkedRanges) \<Rightarrow> Some processed3)"

definition processFootnoteContent :: "string \<Rightarrow> ParsedFootnote option \<Rightarrow> string option" where
  "processFootnoteContent content' footnote =
     (case linkedContent content' footnote of
        None \<Rightarrow> None
      | Some processed \<Rightarrow> Some (shorthandPass (extractBookFromFootnote footnote) processed))"

section \<open>Predicates of the statements\<close>

text \<open>
  A pattern is advancing on a text when none of its matches is empty. A note block
  constructs a footnote when the text of its marker parses to an integer and its cleaned
  content is not empty; \<open>footnoteFor note fn\<close> says that \<open>fn\<close> is the footnote built from
  \<open>note\<close>.
\<close>

definition advancing :: "regex \<Rightarrow> string \<Rightarrow> bool" where
  "advancing r s \<longleftrightarrow> (\<forall>st st'. st' \<in> set (rmatch r s st) \<longrightarrow> fst st < fst st')"

definition constructsFootnote :: "node \<Rightarrow> bool" where
  "constructsFootnote note \<longleftrightarrow> (\<exists>n. noteNumber note = Some (JNum n)) \<and> noteContent note \<noteq> []"

definition footnoteFor :: "node \<Rightarrow> ParsedFootnote \<Rightarrow> bool" where
  "footnoteFor note fn \<longleftrightarrow>
     noteNumber note = Some (number fn) \<and> content fn = noteContent note \<and>
     id_f fn = noteId note \<and> extractVerseReferences note = Some (verseReferences fn) \<and>
     type_f fn = trim (textOf (findIn (hasClass ''notetype'') note))"

text \<open>
  Two ranges overlap when they share a position. A registry is in order for the length
  \<open>n\<close> when its ranges lie inside the text, are longer than \<open>n\<close> and are pairwise
  disjoint; \<open>linksAt\<close> says that each range of the registry holds the link of a reference.
\<close>

definition overlap :: "range \<Rightarrow> range \<Rightarrow> bool" where
  "overlap r r' \<longleftrightarrow> fst r < snd r' \<and> fst r' < snd r"

definition registryOk :: "nat \<Rightarrow> string \<times> range list \<Rightarrow> bool" where
  "registryOk n st \<longleftrightarrow>
     (\<forall>(a, b) \<in> set (snd st). a + n < b \<and> b \<le> length (fst st)) \<and>
     sorted_wrt (\<lambda>r r'. \<not> overlap r r') (snd st)"

definition linksAt :: "VerseReference list \<Rightarrow> string \<times> range list \<Rightarrow> bool" where
  "linksAt refs st \<longleftrightarrow>
     (\<forall>(a, b) \<in> set (snd st). \<exists>r \<in> set refs. substring (fst st) a b = wikiLink r)"

section \<open>The matcher and the exec loop\<close>

lemma rmatch_mono: "st' \<in> set (rmatch r s st) \<Longrightarrow> fst st \<le> fst st'"
  using rmatch_rstar_mono(1) by blast

lemma advancing_Lit: "w \<noteq> [] \<Longrightarrow> advancing (Lit w) s"
  by (auto simp: advancing_def split: if_splits)

lemma advancing_Cls: "advancing (Cls P) s"
  by (auto simp: advancing_def split: if_splits)

lemma advancing_Seq_left: "advancing a s \<Longrightarrow> advancing (Seq a b) s"
  unfolding advancing_def using rmatch_mono by (fastforce)

lemma advancing_Seq_right: "advancing b s \<Longrightarrow> advancing (Seq a b) s"
  unfolding advancing_def using rmatch_mono by (fastforce)

lemma advancing_Grp: "advancing a s \<Longrightarrow> advancing (Grp n a) s"
  unfolding advancing_def by (auto split: if_splits)

lemma advancing_pattern1: "advancing pattern1 s"
  unfolding pattern1_def citationTail_def Plus_def
  by (simp add: advancing_Seq_right advancing_Seq_left advancing_Lit)

lemma advancing_pattern2: "advancing pattern2 s"
  unfolding pattern2_def citationTail_def Plus_def
  by (simp add: advancing_Seq_right advancing_Seq_left advancing_Lit)

lemma execLoop_trace:
  assumes adv: "advancing r s"
  shows "\<exists>ms. (\<forall>xs. execLoop r s (\<lambda>m xs. xs @ [m]) k xs = Some (xs @ ms))
            \<and> (\<forall>(body :: nat \<times> nat \<times> caps \<Rightarrow> 'a \<Rightarrow> 'a) acc.
                 execLoop r s body k acc = Some (foldl (\<lambda>a m. body m a) acc ms))
            \<and> sorted_wrt (<) (map fst ms) \<and> (\<forall>m \<in> set ms. k \<le> fst m)"
proof (induction "Suc (length s) - k" arbitrary: k rule: less_induct)
  case less
  show ?case
  proof (cases "regexExec r s k")
    case None
    then have "\<forall>xs. execLoop r s (\<lambda>m xs. xs @ [m]) k xs = Some (xs @ [])"
      and "\<forall>(body :: nat \<times> nat \<times> caps \<Rightarrow> 'a \<Rightarrow> 'a) acc.
        execLoop r s body k acc = Some (foldl (\<lambda>a m. body m a) acc [])"
      by (simp_all add: execLoop.simps)
    then show ?thesis by (intro exI [of _ "[]"]) simp
  next
    case (Some m)
    obtain i e c where m: "m = (i, e, c)" by (cases m)
    from regexExec_SomeD [OF Some [unfolded m]] adv
    have b: "k \<le> i" "i \<le> length s" "i < e" by (auto simp: advancing_def)
    then have "Suc (length s) - e < Suc (length s) - k" by auto
    from less [OF this] obtain ms where
      ms0: "\<And>xs. execLoop r s (\<lambda>m xs. xs @ [m]) e xs = Some (xs @ ms)"
      and ms1: "\<And>(body :: nat \<times> nat \<times> caps \<Rightarrow> 'a \<Rightarrow> 'a) acc.
             execLoop r s body e acc = Some (foldl (\<lambda>a m. body m a) acc ms)"
      and ms2: "sorted_wrt (<) (map fst ms)" and ms3: "\<forall>m \<in> set ms. e \<le> fst m"
      by blast
    have "\<forall>xs. execLoop r s (\<lambda>m xs. xs @ [m]) k xs = Some (xs @ m # ms)"
      using Some ms0 by (subst execLoop.simps) (simp add: m)
    moreover have "\<forall>(body :: nat \<times> nat \<times> caps \<Rightarrow> 'a \<Rightarrow> 'a) acc.
        execLoop r s body k acc = Some (foldl (\<lambda>a m. body m a) acc (m # ms))"
      using Some ms1 by (subst execLoop.simps) (simp add: m)
    moreover have "sorted_wrt (<) (map fst (m # ms))" using ms2 ms3 b m by auto
    moreover have "\<forall>x \<in> set (m # ms). k \<le> fst x" using ms3 b m by auto
    ultimately show ?thesis by blast
  qed
qed

lemma pushReference_cases:
  "pushReference text m refs = refs @ pushReference text m []"
  by (cases m) (simp add: pushReference_def Let_def)

lemma foldl_pushReference:
  "foldl (\<lambda>a m. pushReference text m a) acc ms = acc @ concat (map (\<lambda>m. pushReference text m []) ms)"
proof (induction ms arbitrary: acc)
  case Nil
  then show ?case by simp
next
  case (Cons m ms)
  show ?case
    by (simp add: Cons.IH) (subst pushReference_cases, simp)
qed

lemma findBibleReferences_passes:
  "\<exists>ms1 ms2. execLoop pattern1 text (\<lambda>m ms. ms @ [m]) 0 [] = Some ms1
     \<and> execLoop pattern2 text (\<lambda>m ms. ms @ [m]) 0 [] = Some ms2
     \<and> sorted_wrt (<) (map fst ms1) \<and> sorted_wrt (<) (map fst ms2)
     \<and> findBibleReferences text = Some (concat (map (\<lambda>m. pushReference text m []) (ms1 @ ms2)))"
proof -
  from execLoop_trace [OF advancing_pattern1, where ?'a = "VerseReference list" and k = 0]
  obtain ms1 where a: "execLoop pattern1 text (\<lambda>m ms. ms @ [m]) 0 [] = Some ms1"
    and a': "\<And>acc. execLoop pattern1 text (pushReference text) 0 acc
               = Some (foldl (\<lambda>a m. pushReference text m a) acc ms1)"
    and a'': "sorted_wrt (<) (map fst ms1)"
    by fastforce
  from execLoop_trace [OF advancing_pattern2, where ?'a = "VerseReference list" and k = 0]
  obtain ms2 where b: "execLoop pattern2 text (\<lambda>m ms. ms @ [m]) 0 [] = Some ms2"
    and b': "\<And>acc. execLoop pattern2 text (pushReference text) 0 acc
               = Some (foldl (\<lambda>a m. pushReference text m a) acc ms2)"
    and b'': "sorted_wrt (<) (map fst ms2)"
    by fastforce
  have "findBibleReferences text = Some (concat (map (\<lambda>m. pushReference text m []) (ms1 @ ms2)))"
    by (simp add: findBibleReferences_def a' b' foldl_pushReference)
  with a b a'' b'' show ?thesis by blast
qed

lemma findBibleReferences_total: "\<exists>refs. findBibleReferences text = Some refs"
  using findBibleReferences_passes by blast

lemma extractVerseReferences_total: "\<exists>refs. extractVerseReferences note = Some refs"
  using findBibleReferences_total [of "textContent note"]
  by (auto simp: extractVerseReferences_def Let_def)

lemma eachNote_result:
  "\<exists>out. eachNote note fs = Some (fs @ out) \<and>
     (if constructsFootnote note then \<exists>fn. out = [fn] \<and> footnoteFor note fn else out = [])"
proof -
  obtain refs where r: "extractVerseReferences note = Some refs"
    using extractVerseReferences_total by blast
  show ?thesis
  proof (cases "noteNumber note")
    case None
    then show ?thesis by (simp add: eachNote_def r constructsFootnote_def)
  next
    case (Some n)
    then show ?thesis
      by (cases n) (auto simp: eachNote_def r constructsFootnote_def footnoteFor_def)
  qed
qed

lemma eachNotes_result:
  "\<exists>out. eachNotes ns fs = Some (fs @ out) \<and>
     list_all2 footnoteFor (filter constructsFootnote ns) out"
proof (induction ns arbitrary: fs)
  case Nil
  then show ?case by simp
next
  case (Cons n ns)
  from eachNote_result [of n fs] obtain o1 where
    o1: "eachNote n fs = Some (fs @ o1)"
      "if constructsFootnote n then \<exists>fn. o1 = [fn] \<and> footnoteFor n fn else o1 = []"
    by blast
  from Cons.IH [of "fs @ o1"] obtain o2 where
    o2: "eachNotes ns (fs @ o1) = Some ((fs @ o1) @ o2)"
      "list_all2 footnoteFor (filter constructsFootnote ns) o2"
    by blast
  have "eachNotes (n # ns) fs = Some (fs @ (o1 @ o2))" using o1(1) o2(1) by simp
  moreover have "list_all2 footnoteFor (filter constructsFootnote (n # ns)) (o1 @ o2)"
    using o1(2) o2(2) by (auto split: if_splits)
  ultimately show ?case by blast
qed

lemma length_filter_eq_iff: "length (filter P xs) = length xs \<longleftrightarrow> (\<forall>x \<in> set xs. P x)"
proof (induction xs)
  case Nil
  then show ?case by simp
next
  case (Cons x xs)
  have le: "length (filter P xs) \<le> length xs" by simp
  show ?case
  proof (cases "P x")
    case True
    with Cons show ?thesis by simp
  next
    case False
    from le have "length (filter P xs) \<noteq> Suc (length xs)" by linarith
    with False show ?thesis by simp
  qed
qed

section \<open>The book-code table\<close>

lemma bookMap_values_valid: "\<forall>(k, v) \<in> set bookMap. v \<in> set validBooks \<and> v \<noteq> []"
  unfolding bookMap_def validBooks_def by simp

text \<open>
  C10. Every abbreviation of the book-code table expands to one of the 66 canonical
  names, so the canonical-name check of the fallback path accepts every candidate whose
  book text is a known abbreviation; and the canonical set has 66 distinct names.
\<close>

theorem known_code_expands_to_canonical:
  "code \<in> fst ` set bookMap \<Longrightarrow>
     (\<exists>name. expandBookName code = JString name \<and> name \<in> set validBooks)
     \<and> isValidBookName (expandBookName code)
     \<and> length validBooks = 66 \<and> distinct validBooks"
proof -
  assume "code \<in> fst ` set bookMap"
  then have "map_of bookMap code \<noteq> None" by (simp add: map_of_eq_None_iff)
  then obtain v' where m: "map_of bookMap code = Some v'" by auto
  then have "(code, v') \<in> set bookMap" by (rule map_of_SomeD)
  with bookMap_values_valid have v': "v' \<in> set validBooks" "v' \<noteq> []" by auto
  have e: "expandBookName code = JString v'"
    using m v' by (simp add: expandBookName_def getProp_def)
  have "length validBooks = 66" "distinct validBooks"
    unfolding validBooks_def by simp_all
  with e v' show ?thesis by simp
qed

theorem known_code_expands_to_canonical_witness:
  "''Jn'' \<in> fst ` set bookMap \<and> expandBookName ''Jn'' = JString ''John''
     \<and> isValidBookName (expandBookName ''Jn'')"
proof -
  have h: "''Jn'' \<in> fst ` set bookMap" unfolding bookMap_def by simp
  have "expandBookName ''Jn'' = JString ''John''"
    by (simp add: expandBookName_def getProp_def bookMap_def)
  with h known_code_expands_to_canonical [OF h] show ?thesis by simp
qed

section \<open>parseFootnotes\<close>

text \<open>
  C3 (as amended). \<open>parseFootnotes\<close> returns for every document; its result is no longer
  than the list of note blocks, and as long exactly when every block has a marker text
  that parses to an integer and a content that is not empty.
\<close>

theorem parseFootnotes_length:
  "\<exists>fs. parseFootnotes doc = Some fs \<and> length fs \<le> length (noteBlocks doc) \<and>
     (length fs = length (noteBlocks doc) \<longleftrightarrow>
        (\<forall>note \<in> set (noteBlocks doc). constructsFootnote note))"
proof -
  from eachNotes_result [of "noteBlocks doc" "[]"] obtain fs where
    fs: "parseFootnotes doc = Some fs"
      "list_all2 footnoteFor (filter constructsFootnote (noteBlocks doc)) fs"
    by (auto simp: parseFootnotes_def)
  from fs(2) have len: "length fs = length (filter constructsFootnote (noteBlocks doc))"
    by (simp add: list_all2_lengthD)
  have "length fs \<le> length (noteBlocks doc)" unfolding len by simp
  moreover have "length fs = length (noteBlocks doc) \<longleftrightarrow>
      (\<forall>note \<in> set (noteBlocks doc). constructsFootnote note)"
    unfolding len by (rule length_filter_eq_iff)
  ultimately show ?thesis using fs(1) by blast
qed

theorem parseFootnotes_length_witness:
  "noteBlocks [Element ''div'' [(''class'', ''note'')]
       [Element ''sup'' [(''class'', ''noteNoteSuper'')] [TextNode ''1''], TextNode '' See this.'']]
     = [Element ''div'' [(''class'', ''note'')]
       [Element ''sup'' [(''class'', ''noteNoteSuper'')] [TextNode ''1''], TextNode '' See this.'']]
   \<and> (\<exists>fs. parseFootnotes [Element ''div'' [(''class'', ''note'')]
         [Element ''sup'' [(''class'', ''noteNoteSuper'')] [TextNode ''1''], TextNode '' See this.'']]
        = Some fs \<and> length fs = 1)"
proof -
  let ?n = "Element ''div'' [(''class'', ''note'')]
       [Element ''sup'' [(''class'', ''noteNoteSuper'')] [TextNode ''1''], TextNode '' See this.'']"
  have b: "noteBlocks [?n] = [?n]" by code_simp
  have "noteNumber ?n = Some (JNum 1)" by code_simp
  moreover have "noteContent ?n = ''See this.''" by code_simp
  ultimately have "constructsFootnote ?n" by (simp add: constructsFootnote_def)
  with b parseFootnotes_length [of "[?n]"] show ?thesis by auto
qed

theorem parseFootnotes_length_counterexample:
  "parseFootnotes [Element ''div'' [(''class'', ''note'')]
       [Element ''sup'' [(''class'', ''noteNoteSuper'')] [TextNode ''1'']]] = Some []
   \<and> map noteNumber (noteBlocks [Element ''div'' [(''class'', ''note'')]
       [Element ''sup'' [(''class'', ''noteNoteSuper'')] [TextNode ''1'']]]) = [Some (JNum 1)]"
  by code_simp

text \<open>
  C4 (as amended). The result of \<open>parseFootnotes\<close> is, in document order, one footnote
  for each note block whose marker text parses to an integer, negative ones included, and
  whose cleaned content is not empty; the other blocks leave no entry and do not end the
  scan.
\<close>

theorem parseFootnotes_constructs:
  "\<exists>fs. parseFootnotes doc = Some fs \<and>
     list_all2 footnoteFor (filter constructsFootnote (noteBlocks doc)) fs"
  using eachNotes_result [of "noteBlocks doc" "[]"] by (simp add: parseFootnotes_def)

theorem parseFootnotes_constructs_witness:
  "\<exists>fs. parseFootnotes
       [Element ''div'' [(''class'', ''note'')]
          [Element ''sup'' [(''class'', ''noteNoteSuper'')] [TextNode [CHR 0xE2, CHR 0x80, CHR 0x94]],
           TextNode '' dropped''],
        Element ''div'' [(''class'', ''note'')]
          [Element ''sup'' [(''class'', ''noteNoteSuper'')] [TextNode ''2''], TextNode '' kept'']]
      = Some fs \<and>
     list_all2 footnoteFor
       [Element ''div'' [(''class'', ''note'')]
          [Element ''sup'' [(''class'', ''noteNoteSuper'')] [TextNode ''2''], TextNode '' kept'']] fs"
proof -
  let ?a = "Element ''div'' [(''class'', ''note'')]
          [Element ''sup'' [(''class'', ''noteNoteSuper'')] [TextNode [CHR 0xE2, CHR 0x80, CHR 0x94]],
           TextNode '' dropped'']"
  let ?b = "Element ''div'' [(''class'', ''note'')]
          [Element ''sup'' [(''class'', ''noteNoteSuper'')] [TextNode ''2''], TextNode '' kept'']"
  have b: "noteBlocks [?a, ?b] = [?a, ?b]" by code_simp
  have "noteNumber ?a = Some JNaN" by code_simp
  then have na: "\<not> constructsFootnote ?a" by (simp add: constructsFootnote_def)
  have "noteNumber ?b = Some (JNum 2)" by code_simp
  moreover have "noteContent ?b = ''kept''" by code_simp
  ultimately have "constructsFootnote ?b" by (simp add: constructsFootnote_def)
  with na b parseFootnotes_constructs [of "[?a, ?b]"] show ?thesis by simp
qed

theorem parseFootnotes_constructs_counterexample:
  "map_option (map number) (parseFootnotes [Element ''div'' [(''class'', ''note'')]
       [Element ''sup'' [(''class'', ''noteNoteSuper'')] [TextNode ''-5''], TextNode '' text'']])
     = Some [JNum (- 5)]"
  by code_simp

section \<open>Reference extraction\<close>



text \<open>
  C6 (as amended). The fallback path runs its two patterns one after the other over the
  whole text. Its result is the records of the matches of the first pattern, from left to
  right, followed by the records of the matches of the second pattern, from left to
  right; a match whose book is canonical gives one record of its own, whose display is
  the matched text, and a match whose book is not gives none.
\<close>

theorem findBibleReferences_two_passes:
  "\<exists>ms1 ms2.
     execLoop pattern1 t (\<lambda>m ms. ms @ [m]) 0 [] = Some ms1 \<and>
     execLoop pattern2 t (\<lambda>m ms. ms @ [m]) 0 [] = Some ms2 \<and>
     sorted_wrt (<) (map fst ms1) \<and> sorted_wrt (<) (map fst ms2) \<and>
     findBibleReferences t = Some (concat (map (\<lambda>m. pushReference t m []) (ms1 @ ms2))) \<and>
     (\<forall>m \<in> set (ms1 @ ms2).
        if isValidBookName (expandBookName (trim (grpText (snd (snd m)) 1)))
        then \<exists>r. pushReference t m [] = [r] \<and> display r = substring t (fst m) (fst (snd m))
        else pushReference t m [] = [])"
proof -
  from findBibleReferences_passes [of t] obtain ms1 ms2 where
    "execLoop pattern1 t (\<lambda>m ms. ms @ [m]) 0 [] = Some ms1"
    "execLoop pattern2 t (\<lambda>m ms. ms @ [m]) 0 [] = Some ms2"
    "sorted_wrt (<) (map fst ms1)" "sorted_wrt (<) (map fst ms2)"
    "findBibleReferences t = Some (concat (map (\<lambda>m. pushReference t m []) (ms1 @ ms2)))"
    by blast
  moreover have "\<forall>m \<in> set (ms1 @ ms2).
        if isValidBookName (expandBookName (trim (grpText (snd (snd m)) 1)))
        then \<exists>r. pushReference t m [] = [r] \<and> display r = substring t (fst m) (fst (snd m))
        else pushReference t m [] = []"
    by (auto simp: pushReference_def Let_def)
  ultimately show ?thesis by blast
qed

theorem findBibleReferences_two_passes_witness:
  "execLoop pattern1 ''Genesis 1:1, Exodus 2:3'' (\<lambda>m ms. ms @ [m]) 0 []
     = Some [(0, 11, [(3, ''1''), (2, ''1''), (1, ''Genesis'')]),
             (13, 23, [(3, ''3''), (2, ''2''), (1, ''Exodus'')])]
   \<and> execLoop pattern2 ''Genesis 1:1, Exodus 2:3'' (\<lambda>m ms. ms @ [m]) 0 []
     = Some [(0, 11, [(3, ''1''), (2, ''1''), (1, ''Genesis'')]),
             (13, 23, [(3, ''3''), (2, ''2''), (1, ''Exodus'')])]
   \<and> map_option (map display) (findBibleReferences ''Genesis 1:1, Exodus 2:3'')
     = Some [''Genesis 1:1'', ''Exodus 2:3'', ''Genesis 1:1'', ''Exodus 2:3'']"
proof -
  let ?t = "''Genesis 1:1, Exodus 2:3''"
  have a: "execLoop pattern1 ?t (\<lambda>m ms. ms @ [m]) 0 []
     = Some [(0, 11, [(3, ''1''), (2, ''1''), (1, ''Genesis'')]),
             (13, 23, [(3, ''3''), (2, ''2''), (1, ''Exodus'')])]"
    by code_simp
  have b: "execLoop pattern2 ?t (\<lambda>m ms. ms @ [m]) 0 []
     = Some [(0, 11, [(3, ''1''), (2, ''1''), (1, ''Genesis'')]),
             (13, 23, [(3, ''3''), (2, ''2''), (1, ''Exodus'')])]"
    by code_simp
  from findBibleReferences_two_passes [of ?t] obtain ms1 ms2 where
    m: "execLoop pattern1 ?t (\<lambda>m ms. ms @ [m]) 0 [] = Some ms1"
       "execLoop pattern2 ?t (\<lambda>m ms. ms @ [m]) 0 [] = Some ms2"
       "findBibleReferences ?t = Some (concat (map (\<lambda>m. pushReference ?t m []) (ms1 @ ms2)))"
    by blast
  from m(1) a have m1: "ms1 = [(0, 11, [(3, ''1''), (2, ''1''), (1, ''Genesis'')]),
             (13, 23, [(3, ''3''), (2, ''2''), (1, ''Exodus'')])]" by simp
  from m(2) b have m2: "ms2 = [(0, 11, [(3, ''1''), (2, ''1''), (1, ''Genesis'')]),
             (13, 23, [(3, ''3''), (2, ''2''), (1, ''Exodus'')])]" by simp
  have "map display (concat (map (\<lambda>m. pushReference ?t m []) (ms1 @ ms2)))
      = [''Genesis 1:1'', ''Exodus 2:3'', ''Genesis 1:1'', ''Exodus 2:3'']"
    unfolding m1 m2 by code_simp
  with m(3) a b show ?thesis by simp
qed

theorem findBibleReferences_order_counterexample:
  "map_option (map display) (findBibleReferences ''Genesis 1:1, Exodus 2:3'')
     = Some [''Genesis 1:1'', ''Exodus 2:3'', ''Genesis 1:1'', ''Exodus 2:3'']"
  by code_simp

section \<open>Unknown book codes\<close>

lemma expandBookName_unknown:
  "code \<notin> fst ` set bookMap \<Longrightarrow> code \<notin> set objectPrototypeProps \<Longrightarrow>
     expandBookName code = JString code"
  by (simp add: expandBookName_def getProp_def map_of_eq_None_iff [THEN iffD2])

lemma fallback_books_canonical:
  assumes "findBibleReferences t = Some refs" and "r \<in> set refs"
  shows "isValidBookName (book r)"
proof -
  from findBibleReferences_passes [of t] assms(1) obtain ms1 ms2 where
    "refs = concat (map (\<lambda>m. pushReference t m []) (ms1 @ ms2))" by auto
  with assms(2) obtain m where "r \<in> set (pushReference t m [])" by auto
  then show ?thesis
    by (cases m) (auto simp: pushReference_def Let_def split: if_splits)
qed

lemma unknown_code_Xy:
  "parseDataRef ''Bible:Xy 1:2'' ''Xy 1:2''
     = Some \<lparr> book = JString ''Xy'', chapter = JNum 1, verse = Some (JNum 2), endVerse = None,
          display = ''Xy 1:2'' \<rparr>"
  "findBibleReferences ''See Xy 1:2'' = Some []"
  by code_simp+

text \<open>
  C8. \<open>expandBookName\<close> reads the code as a property of an object literal, so a code
  that names a property of \<^verbatim>\<open>Object.prototype\<close> is not returned unchanged: for the
  code \<^verbatim>\<open>constructor\<close> the book of the reference is the inherited function, not the
  string.
\<close>

theorem expandBookName_inherited_property:
  "expandBookName ''constructor'' = JInherited ''constructor''
   \<and> expandBookName ''constructor'' \<noteq> JString ''constructor''
   \<and> map_option book (parseDataRef ''Bible:constructor 1:1'' ''constructor 1:1'')
       = Some (JInherited ''constructor'')"
  by code_simp

section \<open>The same-chapter pass\<close>

text \<open>
  C7. For the token \<^verbatim>\<open>3:0\<close>, whose verse is the value that stands for no specific verse,
  the same-chapter pass writes a link to the verse anchor \<^verbatim>\<open>#0\<close>, where
  \<open>generateVerseLink\<close> links the chapter as a whole.
\<close>

theorem shorthand_pass_sentinel_verse:
  "processFootnoteContent ''See 3:0.''
     (Some \<lparr> id_f = ''note_John_3_1'', number = JNum 1, type_f = ''sn'',
             content = ''See 3:0.'', verseReferences = [] \<rparr>)
     = Some ''See [[John 3#0|3:0]].''
   \<and> generateVerseLink \<lparr> book = JString ''John'', chapter = JNum 3, verse = Some (JNum 0),
        endVerse = None, display = ''3:0'' \<rparr> = ''[[John 3|3:0]]''"
  by code_simp

section \<open>Reference-driven linking\<close>

lemma displayRe_exec:
  assumes "regexExec (displayRe d) s k = Some (ms, me, c)"
  shows "k \<le> ms \<and> me = ms + length d \<and> me \<le> length s \<and> substring s ms me = d"
proof -
  from regexExec_SomeD [OF assms]
  have k: "k \<le> ms" "ms \<le> length s" and m: "(me, c) \<in> set (rmatch (displayRe d) s (ms, []))"
    by auto
  from m have o: "occursAt d s ms" and e: "me = ms + length d"
    by (auto simp: displayRe_def split: if_splits)
  from o have t: "take (length d) (drop ms s) = d" by (simp add: occursAt_def)
  then have "length (take (length d) (drop ms s)) = length d" by simp
  then have "length d \<le> length s - ms" by simp
  with k e have "me \<le> length s" by simp
  with k e t show ?thesis by (simp add: substring_def)
qed

lemma isAlreadyLinked_iff_overlap:
  assumes "\<forall>(a, b) \<in> set R. a + n < b" and "ms < me" and "me - ms \<le> n"
  shows "isAlreadyLinked R ms me \<longleftrightarrow> (\<exists>r \<in> set R. overlap (ms, me) r)"
proof
  assume "isAlreadyLinked R ms me"
  then obtain a b where "(a, b) \<in> set R" "(a \<le> ms \<and> ms < b) \<or> (a < me \<and> me \<le> b)"
    by (auto simp: isAlreadyLinked_def list_ex_iff)
  with assms(2) have "(a, b) \<in> set R" "overlap (ms, me) (a, b)"
    by (auto simp: overlap_def)
  then show "\<exists>r \<in> set R. overlap (ms, me) r" by blast
next
  assume "\<exists>r \<in> set R. overlap (ms, me) r"
  then obtain a b where ab: "(a, b) \<in> set R" "ms < b" "a < me"
    by (auto simp: overlap_def)
  with assms(1) have "a + n < b" by auto
  with assms(2,3) ab have "(a \<le> ms \<and> ms < b) \<or> (a < me \<and> me \<le> b)" by linarith
  with ab(1) show "isAlreadyLinked R ms me"
    by (auto simp: isAlreadyLinked_def list_ex_iff)
qed

lemma substring_before:
  assumes "b \<le> ms" and "ms \<le> length s"
  shows "substring (take ms s @ x) a b = substring s a b"
  using assms by (simp add: substring_def take_drop min_def) 

lemma substring_after:
  assumes "me \<le> a" and "ms \<le> me" and "me \<le> length s" and "me - ms \<le> length w"
  shows "substring (take ms s @ w @ drop me s) (a + (length w - (me - ms))) (b + (length w - (me - ms)))
         = substring s a b"
proof -
  have "drop (a + (length w - (me - ms))) (take ms s @ w @ drop me s) = drop a s"
    using assms by (simp add: min_def)
  then show ?thesis by (simp add: substring_def)
qed

lemma substring_new:
  assumes "ms \<le> length s"
  shows "substring (take ms s @ w @ x) ms (ms + length w) = w"
  using assms by (simp add: substring_def min_def)


lemma replaceCandidate_ok:
  assumes ok: "registryOk n (s, R)" and links: "linksAt refs (s, R)"
    and cand: "ms < me" "me \<le> length s" "me - ms \<le> n"
    and nl: "\<not> isAlreadyLinked R ms me"
    and wl: "n < length w" "\<exists>r \<in> set refs. w = wikiLink r"
  shows "registryOk n (replaceCandidate w (s, R) ms me) \<and>
         linksAt refs (replaceCandidate w (s, R) ms me)"
proof -
  define adj where "adj = length w - (me - ms)"
  define shift :: "range \<Rightarrow> range" where
    "shift = (\<lambda>(a, b). if me \<le> a then (a + adj, b + adj) else (a, b))"
  define s' where "s' = take ms s @ w @ drop me s"
  have rc: "replaceCandidate w (s, R) ms me = (s', map shift R @ [(ms, ms + length w)])"
    unfolding replaceCandidate_def substring_def s'_def shift_def adj_def
    using cand(1) by simp
  have len: "length s' = length s + adj"
    using cand wl(1) by (simp add: s'_def adj_def min_def)
  from ok have R1: "\<And>a b. (a, b) \<in> set R \<Longrightarrow> a + n < b \<and> b \<le> length s"
    and R2: "sorted_wrt (\<lambda>r r'. \<not> overlap r r') R"
    by (auto simp: registryOk_def)
  have "\<forall>(a, b) \<in> set R. a + n < b" using R1 by auto
  from isAlreadyLinked_iff_overlap [OF this cand(1) cand(3)] nl
  have "\<forall>r \<in> set R. \<not> overlap (ms, me) r" by simp
  then have side: "\<And>a b. (a, b) \<in> set R \<Longrightarrow> b \<le> ms \<or> me \<le> a"
    by (fastforce simp: overlap_def)
  have shifted: "\<And>a b. (a, b) \<in> set R \<Longrightarrow>
      (b \<le> ms \<and> shift (a, b) = (a, b)) \<or> (me \<le> a \<and> shift (a, b) = (a + adj, b + adj))"
  proof -
    fix a b assume ab: "(a, b) \<in> set R"
    from R1 [OF ab] have "a < b" by simp
    with side [OF ab] cand(1) show
      "(b \<le> ms \<and> shift (a, b) = (a, b)) \<or> (me \<le> a \<and> shift (a, b) = (a + adj, b + adj))"
      by (auto simp: shift_def)
  qed
  have bounds: "\<forall>(a, b) \<in> set (map shift R @ [(ms, ms + length w)]). a + n < b \<and> b \<le> length s'"
  proof -
    have "\<And>a b. (a, b) \<in> set R \<Longrightarrow>
        fst (shift (a, b)) + n < snd (shift (a, b)) \<and> snd (shift (a, b)) \<le> length s'"
    proof -
      fix a b assume ab: "(a, b) \<in> set R"
      from shifted [OF ab] R1 [OF ab] len
      show "fst (shift (a, b)) + n < snd (shift (a, b)) \<and> snd (shift (a, b)) \<le> length s'"
        by auto
    qed
    moreover have "ms + n < ms + length w \<and> ms + length w \<le> length s'"
      using wl(1) cand len by (simp add: adj_def)
    ultimately show ?thesis by (auto simp: case_prod_unfold)
  qed
  have new_free: "\<forall>x \<in> set R. \<not> overlap (shift x) (ms, ms + length w)"
  proof
    fix x assume x: "x \<in> set R"
    obtain a b where xab: "x = (a, b)" by (cases x)
    from shifted [of a b] x xab cand wl(1)
    show "\<not> overlap (shift x) (ms, ms + length w)"
      by (auto simp: overlap_def adj_def)
  qed
  have "sorted_wrt (\<lambda>x y. \<not> overlap (shift x) (shift y)) R"
  proof (rule sorted_wrt_mono_rel [OF _ R2])
    fix x y assume x: "x \<in> set R" and y: "y \<in> set R" and xy: "\<not> overlap x y"
    obtain a b where xab: "x = (a, b)" by (cases x)
    obtain c d where ycd: "y = (c, d)" by (cases y)
    from shifted [of a b] shifted [of c d] R1 [of a b] R1 [of c d] x y xy cand(1)
    show "\<not> overlap (shift x) (shift y)"
      unfolding xab ycd overlap_def by auto
  qed
  then have "sorted_wrt (\<lambda>r r'. \<not> overlap r r') (map shift R)"
    by (simp add: sorted_wrt_map)
  with new_free have disj: "sorted_wrt (\<lambda>r r'. \<not> overlap r r') (map shift R @ [(ms, ms + length w)])"
    by (simp add: sorted_wrt_append)
  from links have L: "\<And>a b. (a, b) \<in> set R \<Longrightarrow> \<exists>r \<in> set refs. substring s a b = wikiLink r"
    by (auto simp: linksAt_def)
  have old_links: "\<And>a b. (a, b) \<in> set R \<Longrightarrow>
      \<exists>r \<in> set refs. substring s' (fst (shift (a, b))) (snd (shift (a, b))) = wikiLink r"
  proof -
    fix a b assume ab: "(a, b) \<in> set R"
    from shifted [OF ab]
    have "substring s' (fst (shift (a, b))) (snd (shift (a, b))) = substring s a b"
    proof
      assume "b \<le> ms \<and> shift (a, b) = (a, b)"
      then show ?thesis
        using substring_before [of b ms s "w @ drop me s" a] cand by (simp add: s'_def)
    next
      assume h: "me \<le> a \<and> shift (a, b) = (a + adj, b + adj)"
      have "me - ms \<le> length w" using cand(3) wl(1) by simp
      with h substring_after [of me a ms s w b] cand show ?thesis
        by (simp add: s'_def adj_def)
    qed
    with L [OF ab] show
      "\<exists>r \<in> set refs. substring s' (fst (shift (a, b))) (snd (shift (a, b))) = wikiLink r"
      by simp
  qed
  have "substring s' ms (ms + length w) = w"
    using substring_new [of ms s w "drop me s"] cand by (simp add: s'_def)
  moreover from old_links
  have "\<forall>x \<in> set R. \<exists>r \<in> set refs. substring s' (fst (shift x)) (snd (shift x)) = wikiLink r"
    by auto
  ultimately have "linksAt refs (s', map shift R @ [(ms, ms + length w)])"
    using wl(2) by (auto simp: linksAt_def case_prod_unfold)
  with bounds disj show ?thesis by (simp add: rc registryOk_def)
qed


lemma wikiLink_longer: "length (display r) < length (wikiLink r)"
  by (simp add: wikiLink_def)

lemma registryOk_weaken: "m \<le> n \<Longrightarrow> registryOk n st \<Longrightarrow> registryOk m st"
  by (fastforce simp: registryOk_def)

lemma length_replaceCandidate:
  assumes "ms \<le> me" "me \<le> length s"
  shows "length (fst (replaceCandidate w (s, R) ms me)) = ms + length w + (length s - me)"
  using assms by (auto simp: replaceCandidate_def substring_def min_def)

lemma linkLoop_ok:
  assumes d: "display ref \<noteq> []" and mem: "ref \<in> set refs"
  shows "registryOk (length (display ref)) st \<Longrightarrow> linksAt refs st \<Longrightarrow>
     \<exists>st'. linkLoop ref st k = Some st' \<and> registryOk (length (display ref)) st' \<and> linksAt refs st'"
proof (induction "Suc (length (fst st)) - k" arbitrary: st k rule: less_induct)
  case less
  obtain s R where st: "st = (s, R)" by (cases st)
  show ?case
  proof (cases "regexExec (displayRe (display ref)) (fst st) k")
    case None
    then have "linkLoop ref st k = Some st" by (subst linkLoop.simps) simp
    with less.prems show ?thesis by blast
  next
    case (Some m)
    obtain ms me c where m: "m = (ms, me, c)" by (cases m)
    from displayRe_exec [OF Some [unfolded m]] d
    have c: "k \<le> ms" "me = ms + length (display ref)" "me \<le> length s" "ms < me"
      by (auto simp: st)
    show ?thesis
    proof (cases "isAlreadyLinked (snd st) ms me")
      case True
      then have eq: "linkLoop ref st k = linkLoop ref st me"
        using Some by (subst linkLoop.simps) (simp add: m)
      have "k < me" "k \<le> length s" using c by linarith+
      then have "Suc (length (fst st)) - me < Suc (length (fst st)) - k"
        unfolding st fst_conv by linarith
      from less.hyps [OF this less.prems] eq show ?thesis by simp
    next
      case False
      let ?st' = "replaceCandidate (wikiLink ref) st ms me"
      let ?k' = "ms + length (wikiLink ref)"
      from False have eq: "linkLoop ref st k = linkLoop ref ?st' ?k'"
        using Some by (subst linkLoop.simps) (simp add: m)
      have ok': "registryOk (length (display ref)) ?st' \<and> linksAt refs ?st'"
        unfolding st
        using less.prems False c mem wikiLink_longer [of ref]
        by (intro replaceCandidate_ok) (auto simp: st)
      have "length (fst ?st') = ms + length (wikiLink ref) + (length s - me)"
        unfolding st using c by (intro length_replaceCandidate) auto
      moreover have "k < me" "k \<le> length s" using c by linarith+
      ultimately have "Suc (length (fst ?st')) - ?k' < Suc (length (fst st)) - k"
        unfolding st fst_conv using c(3) by linarith
      from less.hyps [OF this] ok' eq show ?thesis by simp
    qed
  qed
qed

lemma linkReferences_ok:
  assumes "\<forall>r \<in> set rs. display r \<noteq> [] \<and> r \<in> set refs \<and> length (display r) \<le> n"
    and "sorted_wrt (\<lambda>a b. length (display b) \<le> length (display a)) rs"
    and "registryOk n st" and "linksAt refs st"
  shows "\<exists>st'. linkReferences rs st = Some st' \<and> registryOk 0 st' \<and> linksAt refs st'"
  using assms
proof (induction rs arbitrary: n st)
  case Nil
  then show ?case using registryOk_weaken [of 0 n st] by simp
next
  case (Cons r rs)
  from Cons.prems have r: "display r \<noteq> []" "r \<in> set refs" "length (display r) \<le> n" by auto
  from registryOk_weaken [OF r(3) Cons.prems(3)]
  have "registryOk (length (display r)) st" .
  from linkLoop_ok [OF r(1) r(2) this Cons.prems(4), of 0] obtain st1 where
    st1: "linkLoop r st 0 = Some st1" "registryOk (length (display r)) st1" "linksAt refs st1"
    by blast
  have "\<forall>r' \<in> set rs. display r' \<noteq> [] \<and> r' \<in> set refs \<and> length (display r') \<le> length (display r)"
    using Cons.prems(1,2) by auto
  moreover have "sorted_wrt (\<lambda>a b. length (display b) \<le> length (display a)) rs"
    using Cons.prems(2) by simp
  ultimately obtain st' where
    "linkReferences rs st1 = Some st'" "registryOk 0 st'" "linksAt refs st'"
    using Cons.IH [of "length (display r)" st1] st1 by blast
  with st1(1) show ?case by simp
qed

lemma sortedRefs_props:
  "set (sortedRefs refs) = set refs"
  "sorted_wrt (\<lambda>a b. length (display b) \<le> length (display a)) (sortedRefs refs)"
proof -
  show "set (sortedRefs refs) = set refs" by (simp add: sortedRefs_def)
  have "sorted (map (\<lambda>r. - int (length (display r))) (sortedRefs refs))"
    unfolding sortedRefs_def by (rule sorted_sort_key)
  then show "sorted_wrt (\<lambda>a b. length (display b) \<le> length (display a)) (sortedRefs refs)"
    by (simp add: sorted_map)
qed

lemma linking_total:
  assumes "\<forall>r \<in> set refs. display r \<noteq> []"
  shows "\<exists>st'. linkReferences (sortedRefs refs) (t, []) = Some st' \<and> registryOk 0 st' \<and> linksAt refs st'"
proof -
  define n where "n = Max (insert 0 ((\<lambda>r. length (display r)) ` set refs))"
  have n: "\<forall>r \<in> set refs. length (display r) \<le> n"
    unfolding n_def by (auto intro!: Max_ge)
  have "registryOk n (t, [])" "linksAt refs (t, [])"
    by (simp_all add: registryOk_def linksAt_def)
  with assms n sortedRefs_props [of refs]
  show ?thesis by (intro linkReferences_ok [where n = n]) auto
qed

text \<open>
  The registry of step 3. In the linking loop a candidate is replaced exactly when its
  range meets no range of the registry, and the registry stays right: whenever the registry holds pairwise
  disjoint ranges inside the text, each longer than the display text searched for (as the
  ranges of the longer displays linked before are), the loop goes on without a
  replacement if the candidate found by \<open>exec\<close> meets a claimed range, and otherwise
  replaces it and leaves a registry of the same kind. Started on an empty registry with
  the references sorted longest first, the linking returns, and the ranges it has claimed
  are pairwise disjoint, lie inside the text, and each holds the link of a reference.
\<close>

lemma linkedRanges_no_overlap:
  "(display ref \<noteq> [] \<and> ref \<in> set refs \<and>
    registryOk (length (display ref)) st \<and> linksAt refs st \<and>
    regexExec (displayRe (display ref)) (fst st) lastIndex = Some (matchStart, matchEnd, c) \<longrightarrow>
      (isAlreadyLinked (snd st) matchStart matchEnd \<longleftrightarrow>
         (\<exists>r \<in> set (snd st). overlap (matchStart, matchEnd) r)) \<and>
      (if \<exists>r \<in> set (snd st). overlap (matchStart, matchEnd) r
       then linkLoop ref st lastIndex = linkLoop ref st matchEnd
       else linkLoop ref st lastIndex =
              linkLoop ref (replaceCandidate (wikiLink ref) st matchStart matchEnd)
                (matchStart + length (wikiLink ref)) \<and>
            registryOk (length (display ref)) (replaceCandidate (wikiLink ref) st matchStart matchEnd) \<and>
            linksAt refs (replaceCandidate (wikiLink ref) st matchStart matchEnd)))
   \<and> ((\<forall>r \<in> set refs. display r \<noteq> []) \<longrightarrow>
        (\<exists>out ranges. linkReferences (sortedRefs refs) (t, []) = Some (out, ranges) \<and>
           sorted_wrt (\<lambda>r r'. \<not> overlap r r') ranges \<and>
           (\<forall>(a, b) \<in> set ranges. a < b \<and> b \<le> length out \<and>
              (\<exists>r \<in> set refs. substring out a b = wikiLink r))))"
proof (intro conjI impI)
  assume h: "display ref \<noteq> [] \<and> ref \<in> set refs \<and>
    registryOk (length (display ref)) st \<and> linksAt refs st \<and>
    regexExec (displayRe (display ref)) (fst st) lastIndex = Some (matchStart, matchEnd, c)"
  obtain s R where st: "st = (s, R)" by (cases st)
  from h displayRe_exec [of "display ref" s lastIndex matchStart matchEnd c]
  have c: "matchEnd = matchStart + length (display ref)" "matchEnd \<le> length s"
    "matchStart < matchEnd"
    by (auto simp: st)
  from h have "\<forall>(a, b) \<in> set R. a + length (display ref) < b"
    by (auto simp: registryOk_def st)
  from isAlreadyLinked_iff_overlap [OF this c(3)] c(1)
  have iff: "isAlreadyLinked (snd st) matchStart matchEnd \<longleftrightarrow>
         (\<exists>r \<in> set (snd st). overlap (matchStart, matchEnd) r)"
    by (simp add: st)
  then show "isAlreadyLinked (snd st) matchStart matchEnd \<longleftrightarrow>
         (\<exists>r \<in> set (snd st). overlap (matchStart, matchEnd) r)" .
  show "if \<exists>r \<in> set (snd st). overlap (matchStart, matchEnd) r
       then linkLoop ref st lastIndex = linkLoop ref st matchEnd
       else linkLoop ref st lastIndex =
              linkLoop ref (replaceCandidate (wikiLink ref) st matchStart matchEnd)
                (matchStart + length (wikiLink ref)) \<and>
            registryOk (length (display ref)) (replaceCandidate (wikiLink ref) st matchStart matchEnd) \<and>
            linksAt refs (replaceCandidate (wikiLink ref) st matchStart matchEnd)"
  proof (cases "\<exists>r \<in> set (snd st). overlap (matchStart, matchEnd) r")
    case True
    with iff have "isAlreadyLinked (snd st) matchStart matchEnd" by simp
    with h have "linkLoop ref st lastIndex = linkLoop ref st matchEnd"
      by (subst linkLoop.simps) simp
    with True show ?thesis by simp
  next
    case False
    with iff have nl: "\<not> isAlreadyLinked (snd st) matchStart matchEnd" by simp
    with h have "linkLoop ref st lastIndex =
        linkLoop ref (replaceCandidate (wikiLink ref) st matchStart matchEnd)
          (matchStart + length (wikiLink ref))"
      by (subst linkLoop.simps) simp
    moreover have "registryOk (length (display ref)) (replaceCandidate (wikiLink ref) st matchStart matchEnd) \<and>
            linksAt refs (replaceCandidate (wikiLink ref) st matchStart matchEnd)"
      unfolding st using h nl c wikiLink_longer [of ref]
      by (intro replaceCandidate_ok) (auto simp: st)
    ultimately show ?thesis using False by simp
  qed
next
  assume "\<forall>r \<in> set refs. display r \<noteq> []"
  from linking_total [OF this, of t] obtain out ranges where
    r: "linkReferences (sortedRefs refs) (t, []) = Some (out, ranges)"
      "registryOk 0 (out, ranges)" "linksAt refs (out, ranges)"
    by auto
  from r(2,3) have "sorted_wrt (\<lambda>r r'. \<not> overlap r r') ranges"
    and "\<forall>(a, b) \<in> set ranges. a < b \<and> b \<le> length out \<and>
              (\<exists>r \<in> set refs. substring out a b = wikiLink r)"
    by (auto simp: registryOk_def linksAt_def)
  with r(1) show "\<exists>out ranges. linkReferences (sortedRefs refs) (t, []) = Some (out, ranges) \<and>
           sorted_wrt (\<lambda>r r'. \<not> overlap r r') ranges \<and>
           (\<forall>(a, b) \<in> set ranges. a < b \<and> b \<le> length out \<and>
              (\<exists>r \<in> set refs. substring out a b = wikiLink r))"
    by blast
qed


lemma linkedRanges_no_overlap_witness:
  "regexExec (displayRe ''3:16'') ''See [[John 3#16|John 3:16]] here and 3:16'' 0 = Some (21, 25, [])
   \<and> isAlreadyLinked [(4, 27)] 21 25
   \<and> linkLoop \<lparr> book = JString ''John'', chapter = JNum 3, verse = Some (JNum 16),
                 endVerse = None, display = ''3:16'' \<rparr>
        (''See [[John 3#16|John 3:16]] here and 3:16'', [(4, 27)]) 0
      = linkLoop \<lparr> book = JString ''John'', chapter = JNum 3, verse = Some (JNum 16),
                 endVerse = None, display = ''3:16'' \<rparr>
        (''See [[John 3#16|John 3:16]] here and 3:16'', [(4, 27)]) 25
   \<and> regexExec (displayRe ''3:16'') ''See [[John 3#16|John 3:16]] here and 3:16'' 25 = Some (37, 41, [])
   \<and> \<not> isAlreadyLinked [(4, 27)] 37 41
   \<and> registryOk 4 (replaceCandidate ''[[John 3#16|3:16]]''
         (''See [[John 3#16|John 3:16]] here and 3:16'', [(4, 27)]) 37 41)
   \<and> linkReferences (sortedRefs
         [\<lparr> book = JString ''John'', chapter = JNum 3, verse = Some (JNum 16),
             endVerse = None, display = ''3:16'' \<rparr>,
          \<lparr> book = JString ''John'', chapter = JNum 3, verse = Some (JNum 16),
             endVerse = None, display = ''John 3:16'' \<rparr>])
        (''See John 3:16 here and 3:16'', [])
      = Some (''See [[John 3#16|John 3:16]] here and [[John 3#16|3:16]]'', [(4, 27), (37, 55)])
   \<and> sorted_wrt (\<lambda>r r'. \<not> overlap r r') [(4, 27), (37, 55)]"
proof -
  let ?r1 = "\<lparr> book = JString ''John'', chapter = JNum 3, verse = Some (JNum 16),
                 endVerse = None, display = ''3:16'' \<rparr>"
  let ?r2 = "\<lparr> book = JString ''John'', chapter = JNum 3, verse = Some (JNum 16),
                 endVerse = None, display = ''John 3:16'' \<rparr>"
  let ?s = "''See [[John 3#16|John 3:16]] here and 3:16''"
  let ?st = "(?s, [(4 :: nat, 27 :: nat)])"
  let ?t = "''See John 3:16 here and 3:16''"
  have ok: "registryOk 4 ?st" by (simp add: registryOk_def)
  have w1: "wikiLink ?r1 = ''[[John 3#16|3:16]]''" by code_simp
  have w2: "wikiLink ?r2 = ''[[John 3#16|John 3:16]]''" by code_simp
  have links: "linksAt [?r1, ?r2] ?st" by (simp add: linksAt_def substring_def w2)
  have ex: "regexExec (displayRe ''3:16'') ?s 0 = Some (21, 25, [])" by code_simp
  have ex2: "regexExec (displayRe ''3:16'') ?s 25 = Some (37, 41, [])" by code_simp
  have ov: "\<exists>r \<in> set (snd ?st). overlap (21, 25) r" by (simp add: overlap_def)
  have nov: "\<not> (\<exists>r \<in> set (snd ?st). overlap (37, 41) r)" by (simp add: overlap_def)
  have out: "linkReferences (sortedRefs [?r1, ?r2]) (?t, [])
      = Some (''See [[John 3#16|John 3:16]] here and [[John 3#16|3:16]]'', [(4, 27), (37, 55)])"
    by code_simp
  have len: "length (display ?r1) = 4" by simp
  note main = linkedRanges_no_overlap
  \<comment> \<open>the candidate inside the link is skipped\<close>
  have prem: "display ?r1 \<noteq> [] \<and> ?r1 \<in> set [?r1, ?r2] \<and>
    registryOk (length (display ?r1)) ?st \<and> linksAt [?r1, ?r2] ?st \<and>
    regexExec (displayRe (display ?r1)) (fst ?st) 0 = Some (21, 25, [])"
    unfolding len using ok links ex by simp
  from main [of ?r1 "[?r1, ?r2]" ?st 0 21 25 "[]" ?t, THEN conjunct1, THEN mp, OF prem]
  have a: "isAlreadyLinked (snd ?st) 21 25 \<longleftrightarrow> (\<exists>r \<in> set (snd ?st). overlap (21, 25) r)"
    and b: "if \<exists>r \<in> set (snd ?st). overlap (21, 25) r
       then linkLoop ?r1 ?st 0 = linkLoop ?r1 ?st 25
       else linkLoop ?r1 ?st 0 =
              linkLoop ?r1 (replaceCandidate (wikiLink ?r1) ?st 21 25) (21 + length (wikiLink ?r1)) \<and>
            registryOk (length (display ?r1)) (replaceCandidate (wikiLink ?r1) ?st 21 25) \<and>
            linksAt [?r1, ?r2] (replaceCandidate (wikiLink ?r1) ?st 21 25)"
    by blast+
  from a ov have c1: "isAlreadyLinked [(4, 27)] 21 25" by simp
  from b ov have c2: "linkLoop ?r1 ?st 0 = linkLoop ?r1 ?st 25" by presburger
  \<comment> \<open>the candidate after the link is replaced\<close>
  have prem2: "display ?r1 \<noteq> [] \<and> ?r1 \<in> set [?r1, ?r2] \<and>
    registryOk (length (display ?r1)) ?st \<and> linksAt [?r1, ?r2] ?st \<and>
    regexExec (displayRe (display ?r1)) (fst ?st) 25 = Some (37, 41, [])"
    unfolding len using ok links ex2 by simp
  from main [of ?r1 "[?r1, ?r2]" ?st 25 37 41 "[]" ?t, THEN conjunct1, THEN mp, OF prem2]
  have a2: "isAlreadyLinked (snd ?st) 37 41 \<longleftrightarrow> (\<exists>r \<in> set (snd ?st). overlap (37, 41) r)"
    and b2: "if \<exists>r \<in> set (snd ?st). overlap (37, 41) r
       then linkLoop ?r1 ?st 25 = linkLoop ?r1 ?st 41
       else linkLoop ?r1 ?st 25 =
              linkLoop ?r1 (replaceCandidate (wikiLink ?r1) ?st 37 41) (37 + length (wikiLink ?r1)) \<and>
            registryOk (length (display ?r1)) (replaceCandidate (wikiLink ?r1) ?st 37 41) \<and>
            linksAt [?r1, ?r2] (replaceCandidate (wikiLink ?r1) ?st 37 41)"
    by blast+
  from a2 nov have c3: "\<not> isAlreadyLinked [(4, 27)] 37 41" by simp
  from b2 nov have "registryOk (length (display ?r1)) (replaceCandidate (wikiLink ?r1) ?st 37 41)"
    by presburger
  then have c4: "registryOk 4 (replaceCandidate ''[[John 3#16|3:16]]'' ?st 37 41)"
    unfolding len w1 .
  \<comment> \<open>the whole call\<close>
  have "\<forall>r \<in> set [?r1, ?r2]. display r \<noteq> []" by simp
  from main [of ?r1 "[?r1, ?r2]" ?st 0 21 25 "[]" ?t, THEN conjunct2, THEN mp, OF this]
  obtain out' ranges' where
    o: "linkReferences (sortedRefs [?r1, ?r2]) (?t, []) = Some (out', ranges')"
      "sorted_wrt (\<lambda>r r'. \<not> overlap r r') ranges'"
    by blast
  from o(1) out have "ranges' = [(4, 27), (37, 55)]" by simp
  with o(2) have c5: "sorted_wrt (\<lambda>r r'. \<not> overlap r r') [(4, 27), (37, 55)]" by simp
  from ex c1 c2 ex2 c3 c4 out c5 show ?thesis by blast
qed

section \<open>References made by the parser\<close>

text \<open>
  Every reference that \<open>extractVerseReferences\<close> returns has a display text that is
  not empty: the display of an explicit tag is the text of its element, and the display
  of a text pattern is the matched text. So the linking loop returns on every footnote
  that \<open>parseFootnotes\<close> has made.
\<close>

lemma rmatch_rstar_bound:
  "fst st \<le> length s \<Longrightarrow> (\<forall>st' \<in> set (rmatch r s st). fst st' \<le> length s)"
  "fst st \<le> length s \<Longrightarrow> (\<forall>st' \<in> set (rstar n r s st). fst st' \<le> length s)"
proof (induction r s st and n r s st rule: rmatch_rstar.induct)
  case (1 w s i c)
  show ?case
  proof (cases "occursAt w s i")
    case True
    then have "length (take (length w) (drop i s)) = length w" by (simp add: occursAt_def)
    with 1 show ?thesis by (auto simp: True)
  next
    case False
    then show ?thesis by simp
  qed
next
  case (3 a b s st)
  then show ?case by fastforce
next
  case (11 a s i c)
  then show ?case by (simp split: if_splits)
next
  case (13 n a s st)
  then show ?case by fastforce
qed (auto split: if_splits)


lemma rmatch_bound: "st' \<in> set (rmatch r s st) \<Longrightarrow> fst st \<le> length s \<Longrightarrow> fst st' \<le> length s"
  using rmatch_rstar_bound(1) by blast

lemma substring_nonempty: "i < e \<Longrightarrow> e \<le> length s \<Longrightarrow> substring s i e \<noteq> []"
  by (simp add: substring_def)

lemma execLoop_matches:
  assumes adv: "advancing r s"
  shows "\<exists>ms. (\<forall>(body :: nat \<times> nat \<times> caps \<Rightarrow> 'a \<Rightarrow> 'a) acc.
                 execLoop r s body k acc = Some (foldl (\<lambda>a m. body m a) acc ms))
            \<and> (\<forall>(i, e, c) \<in> set ms. i < e \<and> e \<le> length s)"
proof (induction "Suc (length s) - k" arbitrary: k rule: less_induct)
  case less
  show ?case
  proof (cases "regexExec r s k")
    case None
    then have "\<forall>(body :: nat \<times> nat \<times> caps \<Rightarrow> 'a \<Rightarrow> 'a) acc.
        execLoop r s body k acc = Some (foldl (\<lambda>a m. body m a) acc [])"
      by (simp add: execLoop.simps)
    then show ?thesis by (intro exI [of _ "[]"]) simp
  next
    case (Some m)
    obtain i e c where m: "m = (i, e, c)" by (cases m)
    from regexExec_SomeD [OF Some [unfolded m]]
    have b: "k \<le> i" "i \<le> length s" "(e, c) \<in> set (rmatch r s (i, []))" by auto
    from b(3) adv have ie: "i < e" by (auto simp: advancing_def)
    from rmatch_bound [OF b(3)] b(2) have el: "e \<le> length s" by simp
    from ie b have "Suc (length s) - e < Suc (length s) - k" by auto
    from less [OF this] obtain ms where
      ms1: "\<And>(body :: nat \<times> nat \<times> caps \<Rightarrow> 'a \<Rightarrow> 'a) acc.
             execLoop r s body e acc = Some (foldl (\<lambda>a m. body m a) acc ms)"
      and ms2: "\<forall>(i, e, c) \<in> set ms. i < e \<and> e \<le> length s"
      by blast
    have "\<forall>(body :: nat \<times> nat \<times> caps \<Rightarrow> 'a \<Rightarrow> 'a) acc.
        execLoop r s body k acc = Some (foldl (\<lambda>a m. body m a) acc (m # ms))"
      using Some ms1 by (subst execLoop.simps) (simp add: m)
    moreover have "\<forall>(i, e, c) \<in> set (m # ms). i < e \<and> e \<le> length s"
      using ms2 ie el m by simp
    ultimately show ?thesis by blast
  qed
qed

lemma pushReference_display:
  assumes "i < e" "e \<le> length t" "r \<in> set (pushReference t (i, e, c) refs)"
    and "\<forall>r \<in> set refs. display r \<noteq> []"
  shows "display r \<noteq> []"
  using assms substring_nonempty [of i e t]
  by (auto simp: pushReference_def Let_def split: if_splits)

lemma foldl_pushReference_display:
  assumes "\<forall>(i, e, c) \<in> set ms. i < e \<and> e \<le> length t"
    and "\<forall>r \<in> set refs. display r \<noteq> []"
  shows "\<forall>r \<in> set (foldl (\<lambda>a m. pushReference t m a) refs ms). display r \<noteq> []"
  using assms
proof (induction ms arbitrary: refs)
  case Nil
  then show ?case by simp
next
  case (Cons m ms)
  obtain i e c where m: "m = (i, e, c)" by (cases m)
  from Cons.prems have ie: "i < e" "e \<le> length t" by (simp_all add: m)
  have "\<forall>r \<in> set (pushReference t m refs). display r \<noteq> []"
    using pushReference_display [OF ie _ Cons.prems(2)] by (auto simp: m)
  moreover have "\<forall>(i, e, c) \<in> set ms. i < e \<and> e \<le> length t" using Cons.prems(1) by simp
  ultimately show ?case using Cons.IH by simp
qed

lemma findBibleReferences_display:
  assumes "findBibleReferences t = Some refs"
  shows "\<forall>r \<in> set refs. display r \<noteq> []"
proof -
  from execLoop_matches [OF advancing_pattern1, where ?'a = "VerseReference list" and k = 0 and s = t]
  obtain ms1 where a: "\<And>acc. execLoop pattern1 t (pushReference t) 0 acc
               = Some (foldl (\<lambda>a m. pushReference t m a) acc ms1)"
    and a': "\<forall>(i, e, c) \<in> set ms1. i < e \<and> e \<le> length t"
    by blast
  from execLoop_matches [OF advancing_pattern2, where ?'a = "VerseReference list" and k = 0 and s = t]
  obtain ms2 where b: "\<And>acc. execLoop pattern2 t (pushReference t) 0 acc
               = Some (foldl (\<lambda>a m. pushReference t m a) acc ms2)"
    and b': "\<forall>(i, e, c) \<in> set ms2. i < e \<and> e \<le> length t"
    by blast
  have "refs = foldl (\<lambda>a m. pushReference t m a) (foldl (\<lambda>a m. pushReference t m a) [] ms1) ms2"
    using assms by (simp add: findBibleReferences_def a b)
  moreover have "\<forall>r \<in> set (foldl (\<lambda>a m. pushReference t m a) [] ms1). display r \<noteq> []"
    by (rule foldl_pushReference_display [OF a']) simp
  ultimately show ?thesis using foldl_pushReference_display [OF b'] by blast
qed


lemma rstar_Cls_caps: "st' \<in> set (rstar n (Cls P) s st) \<Longrightarrow> snd st' = snd st"
proof (induction n arbitrary: st)
  case 0
  then show ?case by simp
next
  case (Suc n)
  obtain i c where st: "st = (i, c)" by (cases st)
  from Suc.prems show ?case
    by (auto simp: st split: if_splits dest!: Suc.IH)
qed

lemma Plus_Cls_result:
  assumes "(e, c') \<in> set (rmatch (Plus (Cls P)) s (i, c))"
  shows "c' = c \<and> i < e \<and> e \<le> length s"
proof -
  from assms have i: "i < length s"
    and m: "(e, c') \<in> set (rstar (length s - Suc i) (Cls P) s (Suc i, c))"
    by (auto simp: Plus_def split: if_splits)
  from rstar_Cls_caps [OF m] have "c' = c" by simp
  moreover from m have "(e, c') \<in> set (rmatch (Star (Cls P)) s (Suc i, c))" by simp
  from rmatch_mono [OF this] rmatch_bound [OF this] i have "i < e" "e \<le> length s" by simp_all
  ultimately show ?thesis by simp
qed

lemma dataRef_display:
  assumes "regexExec dataRefAnchoredRe m 0 = Some (i, e, c)"
  shows "grpText c 2 \<noteq> []"
proof -
  from regexExec_SomeD [OF assms]
  have "(e, c) \<in> set (rmatch dataRefAnchoredRe m (i, []))" by simp
  then obtain a b c0 c1 where "(b, c1) \<in> set (rmatch (Plus (Cls (\<lambda>c. c \<noteq> CHR ''<''))) m (a, c0))"
    and "c = (2, substring m a b) # c1"
    unfolding dataRefAnchoredRe_def dataTag_def
    by (auto split: if_splits)
  with Plus_Cls_result [of b c1 _ m a c0] show ?thesis
    by (simp add: grpText_def grp_def substring_nonempty)
qed

lemma dataRefReferences_display: "\<forall>r \<in> set (dataRefReferences html). display r \<noteq> []"
proof -
  have H: "\<forall>r \<in> set (foldl (\<lambda>references match.
        case regexExec dataRefAnchoredRe match 0 of
          None \<Rightarrow> references
        | Some (i, e, c) \<Rightarrow>
            (case parseDataRef (''Bible:'' @ grpText c 1) (grpText c 2) of
               None \<Rightarrow> references
             | Some parsed \<Rightarrow> references @ [parsed])) acc ms). display r \<noteq> []"
    if "\<forall>r \<in> set acc. display r \<noteq> []" for acc ms
    using that
  proof (induction ms arbitrary: acc)
    case Nil
    then show ?case by simp
  next
    case (Cons m ms)
    show ?case
      unfolding foldl_Cons
      by (rule Cons.IH)
         (use Cons.prems in \<open>auto simp: parseDataRef_def split: option.splits dest: dataRef_display\<close>)
  qed
  show ?thesis unfolding dataRefReferences_def by (rule H) simp
qed

lemma parsed_references_display:
  assumes "extractVerseReferences note = Some refs"
  shows "\<forall>r \<in> set refs. display r \<noteq> []"
  using assms dataRefReferences_display [of "innerHTML note"]
    findBibleReferences_display [of "textContent note"]
  by (auto simp: extractVerseReferences_def Let_def split: if_splits option.splits)


lemma list_all2_member:
  "list_all2 P xs ys \<Longrightarrow> y \<in> set ys \<Longrightarrow> \<exists>x \<in> set xs. P x y"
  by (induction rule: list_all2_induct) auto

lemma parsed_footnote_linking_returns:
  assumes "parseFootnotes doc = Some fs" and "fn \<in> set fs"
  shows "\<exists>out. processFootnoteContent t (Some fn) = Some out"
proof -
  from eachNotes_result [of "noteBlocks doc" "[]"] assms(1)
  have "list_all2 footnoteFor (filter constructsFootnote (noteBlocks doc)) fs"
    by (simp add: parseFootnotes_def)
  from list_all2_member [OF this assms(2)] obtain nt where "footnoteFor nt fn" by blast
  then have "extractVerseReferences nt = Some (verseReferences fn)"
    by (simp add: footnoteFor_def)
  from parsed_references_display [OF this]
  have "\<forall>r \<in> set (verseReferences fn). display r \<noteq> []" .
  from linking_total [OF this] obtain st' where
    "linkReferences (sortedRefs (verseReferences fn))
       (jsReplace tagRe (\<lambda>m. []) (jsReplace dataRefRe dataRefCallback t), []) = Some st'"
    by blast
  then show ?thesis
    by (cases st') (simp add: processFootnoteContent_def linkedContent_def)
qed


section \<open>Links written before the registry\<close>

text \<open>
  C1. The registry holds the ranges of step 3 only. Step 1 writes the link of a
  \<^verbatim>\<open>data\<close> element and claims no range for it, so step 3, on its empty registry,
  takes the label \<^verbatim>\<open>1:24\<close> of that link for a free candidate and replaces it: of the
  two links of the result, the one of step 3, at 16 to 34, lies inside the one of
  step 1, at 4 to 36.
\<close>

theorem links_of_one_call_overlap:
  "jsReplace dataRefRe dataRefCallback
     (''See <data ref='' @ [dquote] @ ''Bible:Jn 1:24'' @ [dquote] @ ''>1:24</data>.'')
     = ''See [[John 1#24|1:24]].''
   \<and> regexExec (displayRe ''1:24'') ''See [[John 1#24|1:24]].'' 0 = Some (16, 20, [])
   \<and> \<not> isAlreadyLinked [] 16 20
   \<and> linkReferences
        (sortedRefs [\<lparr> book = JString ''John'', chapter = JNum 1, verse = Some (JNum 24),
           endVerse = None, display = ''1:24'' \<rparr>])
        (''See [[John 1#24|1:24]].'', [])
       = Some (''See [[John 1#24|[[John 1#24|1:24]]]].'', [(16, 34)])
   \<and> processFootnoteContent
        (''See <data ref='' @ [dquote] @ ''Bible:Jn 1:24'' @ [dquote] @ ''>1:24</data>.'')
        (Some \<lparr> id_f = ''note_1'', number = JNum 1, type_f = ''sn'',
           content = ''See <data ref='' @ [dquote] @ ''Bible:Jn 1:24'' @ [dquote] @ ''>1:24</data>.'',
           verseReferences = [\<lparr> book = JString ''John'', chapter = JNum 1,
             verse = Some (JNum 24), endVerse = None, display = ''1:24'' \<rparr>] \<rparr>)
       = Some ''See [[John 1#24|[[John 1#24|1:24]]]].''
   \<and> substring ''See [[John 1#24|[[John 1#24|1:24]]]].'' 4 36 = ''[[John 1#24|[[John 1#24|1:24]]]]''
   \<and> substring ''See [[John 1#24|[[John 1#24|1:24]]]].'' 16 34 = ''[[John 1#24|1:24]]''
   \<and> overlap (4, 36) (16, 34)"
  by code_simp

text \<open>
  The same happens on the way from the parser, for a note whose text holds the element
  in writing: the fallback path reads the reference \<^verbatim>\<open>Jn 1:24\<close> in the text, step 1
  writes the link of the element, and step 3 links its label again.
\<close>

lemma written_tag_link_linked_again:
  "map_option (map (\<lambda>fn. (content fn, map display (verseReferences fn),
        processFootnoteContent (content fn) (Some fn))))
     (parseFootnotes [Element ''div'' [(''class'', ''note'')]
       [Element ''sup'' [(''class'', ''noteNoteSuper'')] [TextNode ''1''],
        TextNode ('' See <data ref='' @ [dquote] @ ''Bible:Jn 1:24'' @ [dquote] @
          ''>Jn 1:24</data>.'')]])
   = Some [(''See <data ref='' @ [dquote] @ ''Bible:Jn 1:24'' @ [dquote] @ ''>Jn 1:24</data>.'',
       [''Jn 1:24'', ''Jn 1:24'', ''Jn 1:24'', ''Jn 1:24''],
       Some ''See [[John 1#24|[[John 1#24|Jn 1:24]]]].'')]"
  by code_simp

section \<open>Matching on a text with a known shape\<close>

lemma find_append_None: "List.find P xs = None \<Longrightarrow> List.find P (xs @ ys) = List.find P ys"
  by (induction xs) (auto split: if_splits)

lemma find_upt_first:
  assumes "k \<le> i" "i < n" "P i" "\<forall>j. k \<le> j \<and> j < i \<longrightarrow> \<not> P j"
  shows "List.find P [k..<n] = Some i"
proof -
  have "[k..<n] = [k..<i] @ i # [Suc i..<n]"
    using assms(1,2) by (metis le_add_diff_inverse less_imp_le_nat upt_add_eq_append upt_conv_Cons)
  moreover have "List.find P [k..<i] = None" using assms(4) by (auto simp: find_None_iff)
  ultimately show ?thesis using assms(3) by (simp add: find_append_None)
qed

lemma regexExec_first:
  assumes "k \<le> i" "i \<le> length s" "rmatch r s (i, []) = (e, c) # rest"
    and "\<forall>j. k \<le> j \<and> j < i \<longrightarrow> rmatch r s (j, []) = []"
  shows "regexExec r s k = Some (i, e, c)"
proof -
  have "List.find (\<lambda>i. rmatch r s (i, []) \<noteq> []) [k..<Suc (length s)] = Some i"
    using assms by (intro find_upt_first) auto
  then show ?thesis using assms(3) by (simp add: regexExec_def)
qed

lemma regexExec_none:
  assumes "\<forall>j. k \<le> j \<and> j \<le> length s \<longrightarrow> rmatch r s (j, []) = []"
  shows "regexExec r s k = None"
proof -
  have "List.find (\<lambda>i. rmatch r s (i, []) \<noteq> []) [k..<Suc (length s)] = None"
    using assms by (auto simp: find_None_iff)
  then show ?thesis by (simp add: regexExec_def)
qed

lemma occursAt_nth:
  assumes "occursAt w s i" "j < length w"
  shows "i + j < length s \<and> s ! (i + j) = w ! j"
proof -
  from assms(1) have t: "take (length w) (drop i s) = w" by (simp add: occursAt_def)
  then have "length (take (length w) (drop i s)) = length w" by simp
  then have l: "length w \<le> length s - i" by simp
  with assms(2) have b: "i + j < length s" by simp
  from t have "take (length w) (drop i s) ! j = w ! j" by simp
  with assms(2) l b show ?thesis by simp
qed

lemma occursAt_Cons:
  "occursAt (x # w) s i \<Longrightarrow> i < length s \<and> s ! i = x"
  using occursAt_nth [of "x # w" s i 0] by simp

lemma occursAt_append: "occursAt w (pre @ w @ post) (length pre)"
  by (simp add: occursAt_def)

lemma replaceFrom_none: "regexExec r s k = None \<Longrightarrow> replaceFrom r f s np k = drop np s"
  by (subst replaceFrom.simps) simp

lemma jsReplace_no_first_char:
  assumes r: "r = Seq (Lit (x # w)) b" and "x \<notin> set s"
  shows "jsReplace r f s = s"
proof -
  have "\<forall>j. 0 \<le> j \<and> j \<le> length s \<longrightarrow> rmatch r s (j, []) = []"
  proof (intro allI impI)
    fix j assume "0 \<le> j \<and> j \<le> length s"
    have "\<not> occursAt (x # w) s j"
      using occursAt_Cons [of x w s j] assms(2) by (metis nth_mem)
    then show "rmatch r s (j, []) = []" by (simp add: r)
  qed
  from regexExec_none [OF this] show ?thesis
    by (simp add: jsReplace_def replaceFrom_none)
qed

lemma NotBehind_Lit:
  "rmatch (NotBehind (Lit w)) s (i, c) =
     (if length w \<le> i \<and> occursAt w s (i - length w) then [] else [(i, c)])"
proof -
  have "list_ex (\<lambda>j. list_ex (\<lambda>st'. fst st' = i) (rmatch (Lit w) s (j, c))) [0..<Suc i]
        \<longleftrightarrow> length w \<le> i \<and> occursAt w s (i - length w)"
  proof
    assume "list_ex (\<lambda>j. list_ex (\<lambda>st'. fst st' = i) (rmatch (Lit w) s (j, c))) [0..<Suc i]"
    then obtain j where "occursAt w s j" "j + length w = i"
      by (auto simp: list_ex_iff split: if_splits)
    then show "length w \<le> i \<and> occursAt w s (i - length w)" by auto
  next
    assume h: "length w \<le> i \<and> occursAt w s (i - length w)"
    then have "i - length w \<in> set [0..<Suc i]"
      "list_ex (\<lambda>st'. fst st' = i) (rmatch (Lit w) s (i - length w, c))"
      by auto
    then show "list_ex (\<lambda>j. list_ex (\<lambda>st'. fst st' = i) (rmatch (Lit w) s (j, c))) [0..<Suc i]"
      unfolding list_ex_iff by blast
  qed
  then show ?thesis by simp
qed

lemma NotBehind_Cls:
  "rmatch (NotBehind (Cls P)) s (i, c) =
     (if 0 < i \<and> i \<le> length s \<and> P (s ! (i - 1)) then [] else [(i, c)])"
proof -
  have "list_ex (\<lambda>j. list_ex (\<lambda>st'. fst st' = i) (rmatch (Cls P) s (j, c))) [0..<Suc i]
        \<longleftrightarrow> 0 < i \<and> i \<le> length s \<and> P (s ! (i - 1))"
  proof
    assume "list_ex (\<lambda>j. list_ex (\<lambda>st'. fst st' = i) (rmatch (Cls P) s (j, c))) [0..<Suc i]"
    then obtain j where "j < length s" "P (s ! j)" "Suc j = i"
      by (auto simp: list_ex_iff split: if_splits)
    then show "0 < i \<and> i \<le> length s \<and> P (s ! (i - 1))" by auto
  next
    assume h: "0 < i \<and> i \<le> length s \<and> P (s ! (i - 1))"
    then have "i - 1 \<in> set [0..<Suc i]"
      "list_ex (\<lambda>st'. fst st' = i) (rmatch (Cls P) s (i - 1, c))"
      by auto
    then show "list_ex (\<lambda>j. list_ex (\<lambda>st'. fst st' = i) (rmatch (Cls P) s (j, c))) [0..<Suc i]"
      unfolding list_ex_iff by blast
  qed
  then show ?thesis by simp
qed

lemma rstar_nomatch: "rmatch a s st = [] \<Longrightarrow> rstar n a s st = [st]"
  by (cases n) simp_all

lemma Plus_Cls_single:
  assumes "i < length s" "P (s ! i)" "Suc i < length s \<longrightarrow> \<not> P (s ! Suc i)"
  shows "rmatch (Plus (Cls P)) s (i, c) = [(Suc i, c)]"
proof -
  have "rmatch (Cls P) s (Suc i, c) = []" using assms(3) by simp
  then have "rstar (length s - Suc i) (Cls P) s (Suc i, c) = [(Suc i, c)]"
    by (rule rstar_nomatch)
  with assms(1,2) show ?thesis by (simp add: Plus_def)
qed

lemma Plus_Cls_nomatch:
  assumes "i < length s \<longrightarrow> \<not> P (s ! i)"
  shows "rmatch (Seq (Cls P) b) s (i, c) = []" "rmatch (Plus (Cls P)) s (i, c) = []"
  using assms by (auto simp: Plus_def)

lemma concat_map_empty: "(\<forall>x \<in> set xs. f x = []) \<Longrightarrow> concat (map f xs) = []"
  by (induction xs) auto




















section \<open>The same-chapter pass with and without a book\<close>

lemma zero_width_NotBehind: "set (rmatch (NotBehind a) s st) \<subseteq> {st}"
  by (cases st) auto

lemma zero_width_NotAhead: "set (rmatch (NotAhead a) s st) \<subseteq> {st}"
  by auto

lemma zero_width_WordB: "set (rmatch WordB s st) \<subseteq> {st}"
  by (cases st) auto

lemma Seq_nomatch_after_zero_width:
  assumes "set (rmatch a s st) \<subseteq> {st}" and "rmatch b s st = []"
  shows "rmatch (Seq a b) s st = []"
proof -
  have "\<forall>st' \<in> set (rmatch a s st). rmatch b s st' = []"
  proof
    fix st' assume "st' \<in> set (rmatch a s st)"
    with assms(1) have "st' = st" by blast
    with assms(2) show "rmatch b s st' = []" by simp
  qed
  from concat_map_empty [OF this] show ?thesis by simp
qed

lemma shorthandRe_nodigit:
  assumes "i < length s \<longrightarrow> \<not> isDigit (s ! i)"
  shows "rmatch shorthandRe s (i, c) = []"
proof -
  have g: "rmatch (Seq (Grp 1 (Plus (Cls isDigit))) b) s (i, c) = []" for b
    using assms Plus_Cls_nomatch(2) [of i s isDigit] by simp
  show ?thesis
    unfolding shorthandRe_def Seqs.simps
    apply (rule Seq_nomatch_after_zero_width, rule zero_width_NotBehind)
    apply (rule Seq_nomatch_after_zero_width, rule zero_width_NotBehind)
    apply (rule Seq_nomatch_after_zero_width, rule zero_width_WordB)
    apply (rule g)
    done
qed

lemma shorthand_scene_match:
  assumes nodig: "\<forall>x \<in> set pre \<union> set post. \<not> isDigit x \<and> x \<noteq> CHR ''['' \<and> x \<noteq> CHR '']''"
    and pre_end: "pre = [] \<or> (\<not> isWordChar (last pre) \<and> last pre \<noteq> CHR ''#'' \<and> last pre \<noteq> CHR '':'')"
    and post_start: "post = [] \<or> \<not> isWordChar (hd post)"
  shows "rmatch shorthandRe (pre @ ''1:4'' @ post) (length pre, [])
         = [(length pre + 3, [(2, ''4''), (1, ''1'')])]"
proof -
  define s where "s = pre @ ''1:4'' @ post"
  define p where "p = length pre"
  have len: "length s = Suc (Suc (Suc (p + length post)))" by (simp add: s_def p_def)
  have at: "s ! p = CHR ''1''" "s ! Suc p = CHR '':''" "s ! Suc (Suc p) = CHR ''4''"
    by (simp_all add: s_def p_def nth_append)
  have pre_ok: "\<not> isDigit (s ! j) \<and> s ! j \<noteq> CHR ''['' \<and> s ! j \<noteq> CHR '']''" if "j < p" for j
  proof -
    have "s ! j = pre ! j" using that by (simp add: s_def p_def nth_append)
    with nodig nth_mem [of j pre] that show ?thesis by (simp add: p_def)
  qed
  have post_ok: "\<not> isDigit (s ! j) \<and> s ! j \<noteq> CHR ''['' \<and> s ! j \<noteq> CHR '']''"
    if "Suc (Suc (Suc p)) \<le> j" "j < length s" for j
  proof -
    from that have k: "j - Suc (Suc (Suc p)) < length post" by (simp add: len)
    have "s ! j = post ! (j - Suc (Suc (Suc p)))"
      using that by (simp add: s_def p_def nth_append)
    with nodig nth_mem [OF k] show ?thesis by simp
  qed
  have prev: "0 < p \<longrightarrow>
      \<not> isWordChar (s ! (p - 1)) \<and> s ! (p - 1) \<noteq> CHR ''#'' \<and> s ! (p - 1) \<noteq> CHR '':''"
  proof
    assume "0 < p"
    then have "pre \<noteq> []" by (simp add: p_def)
    moreover from this have "s ! (p - 1) = last pre"
      by (simp add: s_def p_def nth_append last_conv_nth)
    ultimately show "\<not> isWordChar (s ! (p - 1)) \<and> s ! (p - 1) \<noteq> CHR ''#'' \<and> s ! (p - 1) \<noteq> CHR '':''"
      using pre_end by simp
  qed
  have nxt: "Suc (Suc (Suc p)) < length s \<longrightarrow> \<not> isWordChar (s ! Suc (Suc (Suc p)))"
  proof
    assume "Suc (Suc (Suc p)) < length s"
    then have "post \<noteq> []" by (simp add: len)
    moreover from this have "s ! Suc (Suc (Suc p)) = hd post"
      by (simp add: s_def p_def nth_append hd_conv_nth)
    ultimately show "\<not> isWordChar (s ! Suc (Suc (Suc p)))" using post_start by simp
  qed
  have w1: "isWordChar (CHR ''1'')" "isWordChar (CHR ''4'')" "isDigit (CHR ''1'')" "isDigit (CHR ''4'')"
    "\<not> isDigit (CHR '':'')"
    by (simp_all add: isWordChar_def isDigit_def)
  have nb1: "rmatch (NotBehind (Lit ''[['')) s (p, []) = [(p, [])]"
  proof -
    have "\<not> (2 \<le> p \<and> occursAt ''[['' s (p - 2))"
    proof
      assume h: "2 \<le> p \<and> occursAt ''[['' s (p - 2)"
      with occursAt_Cons [of "CHR ''[''" "''[''" s "p - 2"] have "s ! (p - 2) = CHR ''[''" by simp
      moreover from h have "p - 2 < p" by simp
      ultimately show False using pre_ok by blast
    qed
    then show ?thesis unfolding NotBehind_Lit by (simp add: numeral_2_eq_2)
  qed
  have nb2: "rmatch (NotBehind (Cls (\<lambda>c. c \<in> set ''#:''))) s (p, c) = [(p, c)]" for c
    unfolding NotBehind_Cls using prev by auto
  have b1: "rmatch WordB s (p, c) = [(p, c)]" for c
    using prev by (auto simp: isBoundary_def wordAt_def at w1 len)
  have g1: "rmatch (Plus (Cls isDigit)) s (p, c) = [(Suc p, c)]" for c
    by (rule Plus_Cls_single) (simp_all add: at w1 len)
  have sub1: "substring s p (Suc p) = ''1''"
    by (simp add: substring_def s_def p_def)
  have c1: "rmatch (Lit '':'') s (Suc p, c) = [(Suc (Suc p), c)]" for c
    by (simp add: occursAt_def s_def p_def)
  have g2: "rmatch (Plus (Cls isDigit)) s (Suc (Suc p), c) = [(Suc (Suc (Suc p)), c)]" for c
  proof (rule Plus_Cls_single)
    show "Suc (Suc p) < length s" by (simp add: len)
    show "isDigit (s ! Suc (Suc p))" by (simp add: at w1)
    show "Suc (Suc (Suc p)) < length s \<longrightarrow> \<not> isDigit (s ! Suc (Suc (Suc p)))"
      using post_ok [of "Suc (Suc (Suc p))"] by simp
  qed
  have sub2: "substring s (Suc (Suc p)) (Suc (Suc (Suc p))) = ''4''"
    by (simp add: substring_def s_def p_def)
  have opt: "rmatch (Opt (Seq (Lit ''-'') (Grp 3 (Plus (Cls isDigit))))) s (Suc (Suc (Suc p)), c)
      = [(Suc (Suc (Suc p)), c)]" for c
  proof -
    have "rmatch (Plus (Cls isDigit)) s (Suc (Suc (Suc (Suc p))), c') = []" for c'
      using post_ok [of "Suc (Suc (Suc (Suc p)))"] by (intro Plus_Cls_nomatch) simp
    then show ?thesis by simp
  qed
  have b2: "rmatch WordB s (Suc (Suc (Suc p)), c) = [(Suc (Suc (Suc p)), c)]" for c
    using nxt by (auto simp: isBoundary_def wordAt_def at w1 len)
  have na: "rmatch (NotAhead (Seq (Star (Cls (\<lambda>c. c \<noteq> CHR ''[''))) (Lit '']]''))) s (Suc (Suc (Suc p)), c)
      = [(Suc (Suc (Suc p)), c)]" for c
  proof -
    have "\<forall>st' \<in> set (rmatch (Star (Cls (\<lambda>c. c \<noteq> CHR ''[''))) s (Suc (Suc (Suc p)), c)).
        rmatch (Lit '']]'') s st' = []"
    proof
      fix st' assume m: "st' \<in> set (rmatch (Star (Cls (\<lambda>c. c \<noteq> CHR ''[''))) s (Suc (Suc (Suc p)), c))"
      obtain j c' where st': "st' = (j, c')" by (cases st')
      from rmatch_mono [OF m] have j: "Suc (Suc (Suc p)) \<le> j" by (simp add: st')
      have "\<not> occursAt '']]'' s j"
        using occursAt_Cons [of "CHR '']''" "'']''" s j] post_ok [OF j] by auto
      then show "rmatch (Lit '']]'') s st' = []" by (simp add: st')
    qed
    from concat_map_empty [OF this]
    have "rmatch (Seq (Star (Cls (\<lambda>c. c \<noteq> CHR ''[''))) (Lit '']]'')) s (Suc (Suc (Suc p)), c) = []"
      by (simp only: rmatch.simps(3))
    then show ?thesis by simp
  qed
  have "rmatch shorthandRe s (p, []) = [(Suc (Suc (Suc p)), [(2, ''4''), (1, ''1'')])]"
    unfolding shorthandRe_def Seqs.simps
    by (simp only: rmatch.simps(3,6) nb1 nb2 b1 g1 sub1 c1 g2 sub2 opt b2 na
          list.map concat.simps append_Nil append_Nil2 prod.case)
  then show ?thesis by (simp add: s_def p_def)
qed


lemma indexOf_absent:
  assumes "x \<notin> set s"
  shows "indexOf s (x # w) = - 1" "lastIndexOf s (x # w) = - 1"
proof -
  have n: "\<not> occursAt (x # w) s j" for j
    using occursAt_Cons [of x w s j] assms by (metis nth_mem)
  then have "List.find (occursAt (x # w) s) [0..<Suc (length s)] = None"
    and "List.find (occursAt (x # w) s) (rev [0..<Suc (length s)]) = None"
    by (simp_all add: find_None_iff)
  then show "indexOf s (x # w) = - 1" "lastIndexOf s (x # w) = - 1"
    by (simp_all add: indexOf_def lastIndexOf_def)
qed

lemma indexOf_first:
  assumes "occursAt w s i" "i \<le> length s" "\<forall>j < i. \<not> occursAt w s j"
  shows "indexOf s w = int i"
proof -
  have "List.find (occursAt w s) [0..<Suc (length s)] = Some i"
    using assms by (intro find_upt_first) auto
  then show ?thesis by (simp add: indexOf_def)
qed

lemma shorthand_scene_pass:
  assumes nodig: "\<forall>x \<in> set pre \<union> set post. \<not> isDigit x \<and> x \<noteq> CHR ''['' \<and> x \<noteq> CHR '']''"
    and pre_end: "pre = [] \<or> (\<not> isWordChar (last pre) \<and> last pre \<noteq> CHR ''#'' \<and> last pre \<noteq> CHR '':'')"
    and post_start: "post = [] \<or> \<not> isWordChar (hd post)"
  shows "shorthandPass (Some ''John'') (pre @ ''1:4'' @ post) = pre @ ''[[John 1#4|1:4]]'' @ post"
proof -
  define s where "s = pre @ ''1:4'' @ post"
  define p where "p = length pre"
  define cb where "cb = shorthandCallback s ''John''"
  have len: "length s = p + 3 + length post" by (simp add: s_def p_def)
  have pre_nd: "\<not> isDigit (s ! j)" if "j < p" for j
  proof -
    have "s ! j = pre ! j" using that by (simp add: s_def p_def nth_append)
    with nodig nth_mem [of j pre] that show ?thesis by (simp add: p_def)
  qed
  have post_nd: "\<not> isDigit (s ! j)" if "p + 3 \<le> j" "j < length s" for j
  proof -
    from that have k: "j - (p + 3) < length post" by (simp add: len)
    have "s ! j = post ! (j - (p + 3))"
      using that by (simp add: s_def p_def nth_append eval_nat_numeral)
    with nodig nth_mem [OF k] show ?thesis by simp
  qed
  have m: "rmatch shorthandRe s (p, []) = [(p + 3, [(2, ''4''), (1, ''1'')])]"
    unfolding s_def p_def by (rule shorthand_scene_match [OF nodig pre_end post_start])
  have "\<forall>j. 0 \<le> j \<and> j < p \<longrightarrow> rmatch shorthandRe s (j, []) = []"
    using pre_nd shorthandRe_nodigit by blast
  from regexExec_first [OF _ _ m this]
  have e1: "regexExec shorthandRe s 0 = Some (p, p + 3, [(2, ''4''), (1, ''1'')])"
    by (simp add: len)
  have "\<forall>j. p + 3 \<le> j \<and> j \<le> length s \<longrightarrow> rmatch shorthandRe s (j, []) = []"
    using post_nd shorthandRe_nodigit by blast
  from regexExec_none [OF this]
  have e2: "regexExec shorthandRe s (p + 3) = None" .
  have d1: "isDigit (CHR ''1'')" by (simp add: isDigit_def)
  have occ: "occursAt ''1:4'' s p" unfolding s_def p_def by (rule occursAt_append)
  have "\<forall>j < p. \<not> occursAt ''1:4'' s j"
    using occursAt_Cons [of "CHR ''1''" "'':4''" s] pre_nd d1 by metis
  from indexOf_first [OF occ _ this] have io: "indexOf s ''1:4'' = int p" by (simp add: len)
  have nb: "CHR ''['' \<notin> set pre" "CHR '']'' \<notin> set pre" "CHR ''['' \<notin> set post" "CHR '']'' \<notin> set post"
    using nodig by auto
  have sub: "substring s p (p + 3) = ''1:4''" "substring s 0 p = pre" "drop (p + 3) s = post"
    "drop (Suc (Suc (Suc p))) s = post"
    by (simp_all add: substring_def s_def p_def)
  have cbv: "cb (p, p + 3, [(2, ''4''), (1, ''1'')]) = ''[[John 1#4|1:4]]''"
    unfolding cb_def shorthandCallback_def
    by (simp add: sub io Let_def grpText_def grp_def
          indexOf_absent [OF nb(1)] indexOf_absent [OF nb(2)]
          indexOf_absent [OF nb(3)] indexOf_absent [OF nb(4)])
  have "replaceFrom shorthandRe cb s 0 0 = pre @ ''[[John 1#4|1:4]]'' @ post"
    by (subst replaceFrom.simps)
       (simp add: e1 e2 cbv [unfolded One_nat_def] sub replaceFrom_none)
  then show ?thesis
    by (simp add: shorthandPass_def jsReplace_def s_def cb_def)
qed

lemma linkedContent_plain:
  assumes "CHR ''<'' \<notin> set t" and "verseReferences fn = []"
  shows "linkedContent t (Some fn) = Some t"
proof -
  have a: "jsReplace dataRefRe dataRefCallback t = t"
    by (rule jsReplace_no_first_char [OF _ assms(1)])
       (simp add: dataRefRe_def dataTag_def)
  have b: "jsReplace tagRe (\<lambda>m. []) t = t"
    by (rule jsReplace_no_first_char [OF _ assms(1)]) (simp add: tagRe_def)
  show ?thesis
    by (simp add: linkedContent_def a b assms(2) sortedRefs_def)
qed

lemma bookId_John: "regexExec bookIdRe ''note_John_3_1'' 0 = Some (0, 13, [(1, ''John'')])"
  by code_simp

lemma shorthand_scene:
  assumes "\<forall>x \<in> set pre \<union> set post.
      \<not> isDigit x \<and> x \<noteq> CHR ''['' \<and> x \<noteq> CHR '']'' \<and> x \<noteq> CHR ''<''"
    and "pre = [] \<or> (\<not> isWordChar (last pre) \<and> last pre \<noteq> CHR ''#'' \<and> last pre \<noteq> CHR '':'')"
    and "post = [] \<or> \<not> isWordChar (hd post)"
    and "id_f fn = ''note_John_3_1''" and "verseReferences fn = []"
  shows "extractBookFromFootnote (Some fn) = Some ''John'' \<and>
     processFootnoteContent (pre @ ''1:4'' @ post) (Some fn)
       = Some (pre @ ''[[John 1#4|1:4]]'' @ post)"
proof -
  have b: "extractBookFromFootnote (Some fn) = Some ''John''"
    by (simp add: extractBookFromFootnote_def assms(4) bookId_John grpText_def grp_def)
  have "CHR ''<'' \<notin> set (pre @ ''1:4'' @ post)" using assms(1) by auto
  from linkedContent_plain [OF this assms(5)]
  have l: "linkedContent (pre @ ''1:4'' @ post) (Some fn) = Some (pre @ ''1:4'' @ post)" .
  have "shorthandPass (Some ''John'') (pre @ ''1:4'' @ post) = pre @ ''[[John 1#4|1:4]]'' @ post"
    using assms(1,2,3) by (intro shorthand_scene_pass) auto
  with b l show ?thesis by (simp add: processFootnoteContent_def)
qed


text \<open>
  When \<open>extractBookFromFootnote\<close> gives no book, the same-chapter pass does
  nothing: the result is the text after steps 1 to 3, and a text without markup, for a
  footnote without references, comes back as it is. When the id is
  \<^verbatim>\<open>note_John_3_1\<close> the book is \<^verbatim>\<open>John\<close>, and a bare \<^verbatim>\<open>1:4\<close> between word
  boundaries, in a text with no other digit, bracket or markup, becomes a link to verse 4
  of John 1, the rest of the text unchanged.
\<close>

lemma shorthand_pass_alone:
  "(extractBookFromFootnote footnote = None \<longrightarrow>
      processFootnoteContent content' footnote = linkedContent content' footnote)
   \<and> (extractBookFromFootnote (Some fn) = None \<and> verseReferences fn = [] \<and>
       CHR ''<'' \<notin> set content' \<longrightarrow>
      processFootnoteContent content' (Some fn) = Some content')
   \<and> ((\<forall>x \<in> set pre \<union> set post.
          \<not> isDigit x \<and> x \<noteq> CHR ''['' \<and> x \<noteq> CHR '']'' \<and> x \<noteq> CHR ''<'') \<and>
       (pre = [] \<or> (\<not> isWordChar (last pre) \<and> last pre \<noteq> CHR ''#'' \<and> last pre \<noteq> CHR '':'')) \<and>
       (post = [] \<or> \<not> isWordChar (hd post)) \<and>
       id_f fn' = ''note_John_3_1'' \<and> verseReferences fn' = [] \<longrightarrow>
      extractBookFromFootnote (Some fn') = Some ''John'' \<and>
      processFootnoteContent (pre @ ''1:4'' @ post) (Some fn')
        = Some (pre @ ''[[John 1#4|1:4]]'' @ post))"
proof (intro conjI impI)
  assume "extractBookFromFootnote footnote = None"
  then show "processFootnoteContent content' footnote = linkedContent content' footnote"
    by (simp add: processFootnoteContent_def shorthandPass_def split: option.splits)
next
  assume h: "extractBookFromFootnote (Some fn) = None \<and> verseReferences fn = [] \<and>
       CHR ''<'' \<notin> set content'"
  then have "linkedContent content' (Some fn) = Some content'"
    by (intro linkedContent_plain) simp_all
  with h show "processFootnoteContent content' (Some fn) = Some content'"
    by (simp add: processFootnoteContent_def shorthandPass_def)
next
  assume h: "(\<forall>x \<in> set pre \<union> set post.
          \<not> isDigit x \<and> x \<noteq> CHR ''['' \<and> x \<noteq> CHR '']'' \<and> x \<noteq> CHR ''<'') \<and>
       (pre = [] \<or> (\<not> isWordChar (last pre) \<and> last pre \<noteq> CHR ''#'' \<and> last pre \<noteq> CHR '':'')) \<and>
       (post = [] \<or> \<not> isWordChar (hd post)) \<and>
       id_f fn' = ''note_John_3_1'' \<and> verseReferences fn' = []"
  from h shorthand_scene [of pre post fn']
  show "extractBookFromFootnote (Some fn') = Some ''John''"
    and "processFootnoteContent (pre @ ''1:4'' @ post) (Some fn')
        = Some (pre @ ''[[John 1#4|1:4]]'' @ post)"
    by blast+
qed

lemma shorthand_pass_alone_witness:
  "processFootnoteContent ''See 1:4.''
       (Some \<lparr> id_f = ''note_1'', number = JNum 1, type_f = ''sn'',
               content = ''See 1:4.'', verseReferences = [] \<rparr>)
     = linkedContent ''See 1:4.''
       (Some \<lparr> id_f = ''note_1'', number = JNum 1, type_f = ''sn'',
               content = ''See 1:4.'', verseReferences = [] \<rparr>)
   \<and> processFootnoteContent ''See 1:4.''
       (Some \<lparr> id_f = ''note_1'', number = JNum 1, type_f = ''sn'',
               content = ''See 1:4.'', verseReferences = [] \<rparr>) = Some ''See 1:4.''
   \<and> extractBookFromFootnote
       (Some \<lparr> id_f = ''note_John_3_1'', number = JNum 1, type_f = ''sn'',
               content = ''See 1:4.'', verseReferences = [] \<rparr>) = Some ''John''
   \<and> processFootnoteContent ''See 1:4.''
       (Some \<lparr> id_f = ''note_John_3_1'', number = JNum 1, type_f = ''sn'',
               content = ''See 1:4.'', verseReferences = [] \<rparr>) = Some ''See [[John 1#4|1:4]].''"
proof -
  let ?a = "\<lparr> id_f = ''note_1'', number = JNum 1, type_f = ''sn'',
               content = ''See 1:4.'', verseReferences = [] \<rparr>"
  let ?b = "\<lparr> id_f = ''note_John_3_1'', number = JNum 1, type_f = ''sn'',
               content = ''See 1:4.'', verseReferences = [] \<rparr>"
  have na: "extractBookFromFootnote (Some ?a) = None" by code_simp
  have h1: "\<forall>x \<in> set ''See '' \<union> set ''.''.
          \<not> isDigit x \<and> x \<noteq> CHR ''['' \<and> x \<noteq> CHR '']'' \<and> x \<noteq> CHR ''<''"
    by (simp add: isDigit_def)
  have h2: "''See '' = [] \<or> (\<not> isWordChar (last ''See '') \<and> last ''See '' \<noteq> CHR ''#'' \<and>
      last ''See '' \<noteq> CHR '':'')"
    by (simp add: isWordChar_def isAlpha_def isDigit_def)
  have h3: "''.'' = [] \<or> \<not> isWordChar (hd ''.'')"
    by (simp add: isWordChar_def isAlpha_def isDigit_def)
  have lt: "CHR ''<'' \<notin> set ''See 1:4.''" by simp
  note t = shorthand_pass_alone [of "Some ?a" "''See 1:4.''" ?a "''See ''" "''.''" ?b]
  have "extractBookFromFootnote (Some ?a) = None \<and> verseReferences ?a = [] \<and>
      CHR ''<'' \<notin> set ''See 1:4.''"
    using na lt by simp
  from t [THEN conjunct2, THEN conjunct1, THEN mp, OF this]
  have a: "processFootnoteContent ''See 1:4.'' (Some ?a) = Some ''See 1:4.''" .
  have "(\<forall>x \<in> set ''See '' \<union> set ''.''.
          \<not> isDigit x \<and> x \<noteq> CHR ''['' \<and> x \<noteq> CHR '']'' \<and> x \<noteq> CHR ''<'') \<and>
       (''See '' = [] \<or> (\<not> isWordChar (last ''See '') \<and> last ''See '' \<noteq> CHR ''#'' \<and>
          last ''See '' \<noteq> CHR '':'')) \<and>
       (''.'' = [] \<or> \<not> isWordChar (hd ''.'')) \<and>
       id_f ?b = ''note_John_3_1'' \<and> verseReferences ?b = []"
    using h1 h2 h3 by simp
  from t [THEN conjunct2, THEN conjunct2, THEN mp, OF this]
  have b: "extractBookFromFootnote (Some ?b) = Some ''John'' \<and>
      processFootnoteContent (''See '' @ ''1:4'' @ ''.'') (Some ?b)
        = Some (''See '' @ ''[[John 1#4|1:4]]'' @ ''.'')" .
  from t [THEN conjunct1, THEN mp, OF na]
  have c: "processFootnoteContent ''See 1:4.'' (Some ?a) = linkedContent ''See 1:4.'' (Some ?a)" .
  from a b c show ?thesis by simp
qed

section \<open>A bare token after a link with the same token\<close>

text \<open>
  C9. The footnote has the id \<^verbatim>\<open>note_John_3_1\<close>, so the book is \<^verbatim>\<open>John\<close>, and its
  content \<^verbatim>\<open>See John 1:4 and 1:4\<close> has no \<^verbatim>\<open>data\<close> element and ends with a bare
  \<^verbatim>\<open>1:4\<close>. The pattern of the same-chapter pass finds that token, at 30 to 33, but the
  callback looks at the first occurrence of its text, at 20, which is in the label of the
  link that step 3 has written for \<^verbatim>\<open>John 1:4\<close>; it takes the token for a part of a
  link and returns it as it is. The bare \<^verbatim>\<open>1:4\<close> is not linked.
\<close>

theorem shorthand_pass_first_occurrence:
  "parseFootnotes [Element ''div'' [(''class'', ''note'')]
       [Element ''sup'' [(''class'', ''noteNoteSuper''), (''id'', ''note_John_3_1'')] [TextNode ''1''],
        TextNode '' See John 1:4 and 1:4'']]
     = Some [\<lparr> id_f = ''note_John_3_1'', number = JNum 1, type_f = [],
          content = ''See John 1:4 and 1:4'',
          verseReferences =
            [\<lparr> book = JString ''John'', chapter = JNum 1, verse = Some (JNum 4),
                endVerse = None, display = '' John 1:4'' \<rparr>,
             \<lparr> book = JString ''John'', chapter = JNum 1, verse = Some (JNum 4),
                endVerse = None, display = ''John 1:4'' \<rparr>] \<rparr>]
   \<and> extractBookFromFootnote
        (Some \<lparr> id_f = ''note_John_3_1'', number = JNum 1, type_f = [],
          content = ''See John 1:4 and 1:4'',
          verseReferences =
            [\<lparr> book = JString ''John'', chapter = JNum 1, verse = Some (JNum 4),
                endVerse = None, display = '' John 1:4'' \<rparr>,
             \<lparr> book = JString ''John'', chapter = JNum 1, verse = Some (JNum 4),
                endVerse = None, display = ''John 1:4'' \<rparr>] \<rparr>) = Some ''John''
   \<and> linkedContent ''See John 1:4 and 1:4''
        (Some \<lparr> id_f = ''note_John_3_1'', number = JNum 1, type_f = [],
          content = ''See John 1:4 and 1:4'',
          verseReferences =
            [\<lparr> book = JString ''John'', chapter = JNum 1, verse = Some (JNum 4),
                endVerse = None, display = '' John 1:4'' \<rparr>,
             \<lparr> book = JString ''John'', chapter = JNum 1, verse = Some (JNum 4),
                endVerse = None, display = ''John 1:4'' \<rparr>] \<rparr>)
       = Some ''See[[John 1#4| John 1:4]] and 1:4''
   \<and> regexExec shorthandRe ''See[[John 1#4| John 1:4]] and 1:4'' 0
       = Some (30, 33, [(2, ''4''), (1, ''1'')])
   \<and> indexOf ''See[[John 1#4| John 1:4]] and 1:4'' ''1:4'' = 20
   \<and> shorthandCallback ''See[[John 1#4| John 1:4]] and 1:4'' ''John''
        (30, 33, [(2, ''4''), (1, ''1'')]) = ''1:4''
   \<and> processFootnoteContent ''See John 1:4 and 1:4''
        (Some \<lparr> id_f = ''note_John_3_1'', number = JNum 1, type_f = [],
          content = ''See John 1:4 and 1:4'',
          verseReferences =
            [\<lparr> book = JString ''John'', chapter = JNum 1, verse = Some (JNum 4),
                endVerse = None, display = '' John 1:4'' \<rparr>,
             \<lparr> book = JString ''John'', chapter = JNum 1, verse = Some (JNum 4),
                endVerse = None, display = ''John 1:4'' \<rparr>] \<rparr>)
       = Some ''See[[John 1#4| John 1:4]] and 1:4''"
  by code_simp

end
